theory Spec2Isabelle
  imports Main
begin

section \<open>Configuration and grids\<close>

text \<open>
  The constants of \<^verbatim>\<open>GAME_CONFIG\<close> and the table \<^verbatim>\<open>DIRECTIONS\<close> of
  \<^verbatim>\<open>src/index.ts\<close>. Coordinates are integers, because the neighbour loops form
  \<^verbatim>\<open>row + dx\<close> with \<^verbatim>\<open>dx = -1\<close>.
\<close>

definition ROWS :: int where "ROWS = 8"
definition COLS :: int where "COLS = 8"
definition MINES :: int where "MINES = 10"
definition MAX_REVEALS :: int where "MAX_REVEALS = 50"

definition DIRECTIONS :: "(int \<times> int) list" where
  "DIRECTIONS = [(-1, -1), (-1, 0), (-1, 1), (0, -1), (0, 1), (1, -1), (1, 0), (1, 1)]"

definition isValidPosition :: "int \<Rightarrow> int \<Rightarrow> bool" where
  "isValidPosition row col \<longleftrightarrow> row \<ge> 0 \<and> row < ROWS \<and> col \<ge> 0 \<and> col < COLS"

text \<open>
  A grid is an array of rows, \<^verbatim>\<open>number[][]\<close> or \<^verbatim>\<open>boolean[][]\<close>.
  \<open>at\<close> and \<open>setAt\<close> are the accesses \<^verbatim>\<open>g[row][col]\<close> and
  \<^verbatim>\<open>g[row][col] = v\<close> at the places where the source has checked
  \<^verbatim>\<open>isValidPosition\<close> first, or loops over \<^verbatim>\<open>0 .. ROWS-1\<close> and
  \<^verbatim>\<open>0 .. COLS-1\<close>; on a grid of \<open>ROWS\<close> rows of \<open>COLS\<close> cells
  (predicate \<open>wf_grid\<close>; every grid the program builds has this shape) these are in range.
  The accesses the handler makes without a check are modelled by \<open>rd\<close> further down.
\<close>

type_synonym 'a grid = "'a list list"

definition at :: "'a grid \<Rightarrow> int \<Rightarrow> int \<Rightarrow> 'a" where
  "at g row col = g ! nat row ! nat col"

definition setAt :: "'a grid \<Rightarrow> int \<Rightarrow> int \<Rightarrow> 'a \<Rightarrow> 'a grid" where
  "setAt g row col v = g[nat row := (g ! nat row)[nat col := v]]"

definition wf_grid :: "'a grid \<Rightarrow> bool" where
  "wf_grid g \<longleftrightarrow> int (length g) = ROWS \<and> list_all (\<lambda>r. int (length r) = COLS) g"

definition rowIndices :: "int list" where
  "rowIndices = map int [0 ..< nat ROWS]"

definition colIndices :: "int list" where
  "colIndices = map int [0 ..< nat COLS]"

text \<open>All cells in the order of the nested \<^verbatim>\<open>for\<close> loops: row by row.\<close>

definition allCells :: "(int \<times> int) list" where
  "allCells = concat (map (\<lambda>r. map (\<lambda>c. (r, c)) colIndices) rowIndices)"

section \<open>Board generation\<close>

text \<open>
  \<^verbatim>\<open>calculateNumbers\<close> overwrites the board in place while it walks over it: the
  count for a cell reads the board as it is at that moment, with the cells before it
  already replaced by their counts.
\<close>

definition countAround :: "int grid \<Rightarrow> int \<Rightarrow> int \<Rightarrow> int" where
  "countAround b row col =
     fold (\<lambda>(dx, dy) count.
             if isValidPosition (row + dx) (col + dy) \<and> at b (row + dx) (col + dy) = -1
             then count + 1 else count)
          DIRECTIONS 0"

definition calcCell :: "int \<Rightarrow> int \<Rightarrow> int grid \<Rightarrow> int grid" where
  "calcCell row col b =
     (if at b row col \<noteq> -1 then setAt b row col (countAround b row col) else b)"

definition calculateNumbers :: "int grid \<Rightarrow> int grid" where
  "calculateNumbers b =
     fold (\<lambda>row b'. fold (\<lambda>col b''. calcCell row col b'') colIndices b') rowIndices b"

text \<open>
  \<^verbatim>\<open>createNewGame\<close> draws cells with \<^verbatim>\<open>Math.random\<close> until \<open>MINES\<close> distinct
  cells hold a mine. The random source is the list of the pairs
  \<^verbatim>\<open>(Math.floor(Math.random() * ROWS), Math.floor(Math.random() * COLS))\<close> it
  delivers, one pair per iteration of the \<^verbatim>\<open>while\<close> loop. The loop has no bound of its
  own: a source that keeps repeating cells never lets it finish, so \<open>placeMines\<close> returns
  \<open>None\<close> when the draws run out before the mines are placed.
\<close>

fun placeMines :: "(int \<times> int) list \<Rightarrow> int \<Rightarrow> int grid \<Rightarrow> int grid option" where
  "placeMines [] minesPlaced b = (if minesPlaced < MINES then None else Some b)"
| "placeMines ((row, col) # rnd) minesPlaced b =
     (if minesPlaced < MINES then
        (if at b row col \<noteq> -1
         then placeMines rnd (minesPlaced + 1) (setAt b row col (-1))
         else placeMines rnd minesPlaced b)
      else Some b)"

definition newGrid :: "'a \<Rightarrow> 'a grid" where
  "newGrid v = replicate (nat ROWS) (replicate (nat COLS) v)"

record game =
  board :: "int grid"
  mask :: "bool grid"
  flags :: "bool grid"
  gameOver :: bool
  won :: bool
  startTime :: int
  moves :: int
  endTime :: "int option"

text \<open>\<open>now\<close> is the value of \<^verbatim>\<open>Date.now()\<close>; \<^verbatim>\<open>endTime: undefined\<close> is \<open>None\<close>.\<close>

definition createNewGame :: "(int \<times> int) list \<Rightarrow> int \<Rightarrow> game option" where
  "createNewGame rnd now =
     (case placeMines rnd 0 (newGrid 0) of
        None \<Rightarrow> None
      | Some b \<Rightarrow>
          Some \<lparr> board = calculateNumbers b, mask = newGrid False, flags = newGrid False,
                 gameOver = False, won = False, startTime = now, moves = 0,
                 endTime = None \<rparr>)"

section \<open>Reveal\<close>

text \<open>
  \<^verbatim>\<open>revealEmpty\<close> mutates the game and returns the remaining budget; the model returns
  both. \<open>revealDirs\<close> is its \<^verbatim>\<open>for (const [dx, dy] of DIRECTIONS)\<close> loop, which
  threads the game and the budget through the recursive calls.
\<close>

function revealEmpty :: "game \<Rightarrow> int \<Rightarrow> int \<Rightarrow> int \<Rightarrow> game \<times> int"
  and revealDirs :: "game \<Rightarrow> int \<Rightarrow> int \<Rightarrow> (int \<times> int) list \<Rightarrow> int \<Rightarrow> game \<times> int"
where
  "revealEmpty g row col maxReveals =
     (if \<not> isValidPosition row col \<or> at (mask g) row col \<or> at (flags g) row col
         \<or> maxReveals \<le> 0
      then (g, maxReveals)
      else
        (let g' = g\<lparr>mask := setAt (mask g) row col True\<rparr>
         in if at (board g') row col = 0
            then revealDirs g' row col DIRECTIONS (maxReveals - 1)
            else (g', maxReveals - 1)))"
| "revealDirs g row col [] maxReveals = (g, maxReveals)"
| "revealDirs g row col ((dx, dy) # ds) maxReveals =
     (case revealEmpty g (row + dx) (col + dy) maxReveals of
        (g', maxReveals') \<Rightarrow> revealDirs g' row col ds maxReveals')"
  by pat_completeness auto

lemma reveal_budget_dom:
  "revealEmpty_revealDirs_dom (Inl (g, row, col, m)) \<Longrightarrow> snd (revealEmpty g row col m) \<le> m"
  "revealEmpty_revealDirs_dom (Inr (g, row, col, ds, m)) \<Longrightarrow> snd (revealDirs g row col ds m) \<le> m"
proof (induction g row col m and g row col ds m rule: revealEmpty_revealDirs.pinduct)
  case (1 g row col maxReveals)
  then show ?case
    by (auto simp: revealEmpty.psimps Let_def)
next
  case (2 g row col maxReveals)
  then show ?case by (simp add: revealDirs.psimps)
next
  case (3 g row col dx dy ds maxReveals)
  then show ?case
    by (auto simp: revealDirs.psimps split: prod.splits)
qed

termination revealEmpty
  apply (relation "inv_image (less_than <*lex*> less_than)
        (\<lambda>x. case x of Inl (g, row, col, m) \<Rightarrow> (nat m, 0)
                     | Inr (g, row, col, ds, m) \<Rightarrow> (nat m, Suc (length ds)))")
     apply (rule wf_inv_image, rule wf_lex_prod, rule wf_less_than, rule wf_less_than)
    apply simp_all
  subgoal for g row col dx dy maxReveals x y
    using reveal_budget_dom(1) [of g "row + dx" "col + dy" maxReveals]
    by (cases "revealEmpty g (row + dx) (col + dy) maxReveals") auto
  done

section \<open>Unchecked reads\<close>

text \<open>
  The handler and \<^verbatim>\<open>autoFlag\<close> read \<^verbatim>\<open>game.mask[row][col]\<close>,
  \<^verbatim>\<open>game.flags[row][col]\<close> and \<^verbatim>\<open>game.board[row][col]\<close> at the clicked
  coordinates without a bounds check. In JavaScript \<^verbatim>\<open>g[row]\<close> is \<^verbatim>\<open>undefined\<close>
  for a row that is not an index of \<^verbatim>\<open>g\<close>, and reading \<^verbatim>\<open>[col]\<close> of
  \<^verbatim>\<open>undefined\<close> throws a \<^verbatim>\<open>TypeError\<close>; for a row that exists and a
  column that does not, the read gives \<^verbatim>\<open>undefined\<close> (here \<open>None\<close>).
  The coordinates are the results of \<^verbatim>\<open>Number\<close> on the parts of the callback data;
  the model covers the integers. A row that is not an integer behaves as a row out of
  range does, and a column that is not an integer as a column out of range does, as far
  as the stored state goes.
\<close>

datatype error = TypeError

definition rd :: "'a grid \<Rightarrow> int \<Rightarrow> int \<Rightarrow> error + 'a option" where
  "rd g row col =
     (if 0 \<le> row \<and> row < int (length g) then
        (if 0 \<le> col \<and> col < int (length (g ! nat row))
         then Inr (Some (g ! nat row ! nat col)) else Inr None)
      else Inl TypeError)"

text \<open>Truthiness of a boolean cell: \<^verbatim>\<open>undefined\<close> is falsy.\<close>

definition truthy :: "bool option \<Rightarrow> bool" where
  "truthy v \<longleftrightarrow> v = Some True"

text \<open>
  Comparisons of a numeric cell with a number: \<^verbatim>\<open>undefined > 0\<close> and
  \<^verbatim>\<open>undefined <= 0\<close> are both false (the operand becomes \<^verbatim>\<open>NaN\<close>), and
  \<^verbatim>\<open>undefined === n\<close> is false.
\<close>

definition gt0 :: "int option \<Rightarrow> bool" where
  "gt0 v \<longleftrightarrow> (case v of None \<Rightarrow> False | Some n \<Rightarrow> n > 0)"

definition le0 :: "int option \<Rightarrow> bool" where
  "le0 v \<longleftrightarrow> (case v of None \<Rightarrow> False | Some n \<Rightarrow> n \<le> 0)"

section \<open>The auto-flag heuristic\<close>

text \<open>
  The neighbour scan of \<^verbatim>\<open>autoFlag\<close>: \<^verbatim>\<open>flaggedCount\<close>, \<^verbatim>\<open>hiddenCount\<close>
  and \<^verbatim>\<open>hiddenPositions\<close>.
\<close>

definition scanAuto :: "game \<Rightarrow> int \<Rightarrow> int \<Rightarrow> int \<times> int \<times> (int \<times> int) list" where
  "scanAuto g row col =
     fold (\<lambda>(dx, dy) (flaggedCount, hiddenCount, hiddenPositions).
             let newRow = row + dx; newCol = col + dy in
             if isValidPosition newRow newCol then
               (if at (flags g) newRow newCol
                then (flaggedCount + 1, hiddenCount, hiddenPositions)
                else if \<not> at (mask g) newRow newCol
                then (flaggedCount, hiddenCount + 1, hiddenPositions @ [(newRow, newCol)])
                else (flaggedCount, hiddenCount, hiddenPositions))
             else (flaggedCount, hiddenCount, hiddenPositions))
          DIRECTIONS (0, 0, [])"

definition flagAll :: "(int \<times> int) list \<Rightarrow> bool grid \<Rightarrow> bool grid" where
  "flagAll ps f = fold (\<lambda>(r, c) f'. setAt f' r c True) ps f"

text \<open>
  \<^verbatim>\<open>autoFlag\<close> returns its boolean together with the game it may have mutated.
  With \<^verbatim>\<open>board[row][col]\<close> \<^verbatim>\<open>undefined\<close> the final test compares \<^verbatim>\<open>NaN\<close>
  and is false.
\<close>

definition autoFlag :: "game \<Rightarrow> int \<Rightarrow> int \<Rightarrow> error + (bool \<times> game)" where
  "autoFlag g row col =
     (case rd (mask g) row col of
        Inl e \<Rightarrow> Inl e
      | Inr m \<Rightarrow>
          if \<not> truthy m then Inr (False, g)
          else
            (case rd (board g) row col of
               Inl e \<Rightarrow> Inl e
             | Inr v \<Rightarrow>
                 if le0 v then Inr (False, g)
                 else
                   (case scanAuto g row col of
                      (flaggedCount, hiddenCount, hiddenPositions) \<Rightarrow>
                        if hiddenCount > 0 \<and> (case v of None \<Rightarrow> False
                                                | Some n \<Rightarrow> n - flaggedCount = hiddenCount)
                        then Inr (True, g\<lparr>flags := flagAll hiddenPositions (flags g)\<rparr>)
                        else Inr (False, g))))"

section \<open>The move handler\<close>

text \<open>The loss transition: both places of the handler that hit a mine run these lines.\<close>

definition showMines :: "int grid \<Rightarrow> bool grid \<Rightarrow> bool grid" where
  "showMines b m =
     fold (\<lambda>r m'. fold (\<lambda>c m''. if at b r c = -1 then setAt m'' r c True else m'')
                        colIndices m')
          rowIndices m"

definition mineHit :: "int \<Rightarrow> game \<Rightarrow> game" where
  "mineHit now g =
     g\<lparr>gameOver := True, endTime := Some now, mask := showMines (board g) (mask g)\<rparr>"

text \<open>The neighbour scan of the chord branch: \<^verbatim>\<open>flagCount\<close> and \<^verbatim>\<open>unopenedCells\<close>.\<close>

definition scanChord :: "game \<Rightarrow> int \<Rightarrow> int \<Rightarrow> int \<times> (int \<times> int) list" where
  "scanChord g row col =
     fold (\<lambda>(dx, dy) (flagCount, unopenedCells).
             let newRow = row + dx; newCol = col + dy in
             if isValidPosition newRow newCol then
               (if at (flags g) newRow newCol
                then (flagCount + 1, unopenedCells)
                else if \<not> at (mask g) newRow newCol
                then (flagCount, unopenedCells @ [(newRow, newCol)])
                else (flagCount, unopenedCells))
             else (flagCount, unopenedCells))
          DIRECTIONS (0, [])"

definition revealAll :: "(int \<times> int) list \<Rightarrow> game \<Rightarrow> game" where
  "revealAll ps g = fold (\<lambda>(r, c) g'. fst (revealEmpty g' r c MAX_REVEALS)) ps g"

text \<open>
  The chord branch, entered with \<^verbatim>\<open>game.mask[row][col]\<close> true and
  \<open>v = game.board[row][col] > 0\<close>. The loop that looks for a mine among the unopened
  cells and breaks at the first is \<open>list_ex\<close>.
\<close>

definition chord :: "int \<Rightarrow> game \<Rightarrow> int \<Rightarrow> int \<Rightarrow> int \<Rightarrow> error + game" where
  "chord now g row col v =
     (case scanChord g row col of
        (flagCount, unopenedCells) \<Rightarrow>
          if flagCount = v then
            (let hitMine = list_ex (\<lambda>(r, c). at (board g) r c = -1) unopenedCells in
             if hitMine then Inr (mineHit now g)
             else
               (let g' = revealAll unopenedCells g in
                if length unopenedCells > 0 then Inr (g'\<lparr>moves := moves g' + 1\<rparr>)
                else Inr g'))
          else
            (case autoFlag g row col of
               Inl e \<Rightarrow> Inl e
             | Inr (flagged, g') \<Rightarrow>
                 if flagged then Inr (g'\<lparr>moves := moves g' + 1\<rparr>) else Inr g'))"

text \<open>
  Lines 228 to 297: the dispatch on the clicked cell. \<^verbatim>\<open>&&\<close> reads the board only when
  the mask entry is truthy.
\<close>

definition cellMove :: "int \<Rightarrow> game \<Rightarrow> int \<Rightarrow> int \<Rightarrow> error + game" where
  "cellMove now g row col =
     (case rd (mask g) row col of
        Inl e \<Rightarrow> Inl e
      | Inr m \<Rightarrow>
          (case (if truthy m then rd (board g) row col else Inr None) of
             Inl e \<Rightarrow> Inl e
           | Inr v \<Rightarrow>
               if truthy m \<and> gt0 v then chord now g row col (the v)
               else
                 (case rd (flags g) row col of
                    Inl e \<Rightarrow> Inl e
                  | Inr f \<Rightarrow>
                      if \<not> truthy f then
                        (let g1 = g\<lparr>moves := moves g + 1\<rparr> in
                         case rd (board g1) row col of
                           Inl e \<Rightarrow> Inl e
                         | Inr v' \<Rightarrow>
                             if v' = Some (-1) then Inr (mineHit now g1)
                             else Inr (fst (revealEmpty g1 row col MAX_REVEALS)))
                      else Inr g)))"

text \<open>Lines 300 to 319: the win check, with \<^verbatim>\<open>correctFlags\<close> and \<^verbatim>\<open>totalFlags\<close>.\<close>

definition countFlags :: "game \<Rightarrow> int \<times> int" where
  "countFlags g =
     fold (\<lambda>r acc. fold (\<lambda>c (correctFlags, totalFlags).
                            if at (flags g) r c
                            then (if at (board g) r c = -1 then correctFlags + 1
                                  else correctFlags, totalFlags + 1)
                            else (correctFlags, totalFlags))
                         colIndices acc)
          rowIndices (0, 0)"

definition winCheck :: "int \<Rightarrow> game \<Rightarrow> game" where
  "winCheck now g =
     (if \<not> gameOver g then
        (case countFlags g of
           (correctFlags, totalFlags) \<Rightarrow>
             if correctFlags = MINES \<and> totalFlags = MINES
             then g\<lparr>gameOver := True, won := True, endTime := Some now\<rparr>
             else g)
      else g)"

text \<open>
  The cell action on the decoded game. \<open>Inr None\<close>: the handler returned at
  \<^verbatim>\<open>if (game.gameOver)\<close> and stored nothing; \<open>Inr (Some g')\<close>: it went on to
  \<^verbatim>\<open>put\<close> the game \<open>g'\<close>; \<open>Inl e\<close>: it threw, which \<^verbatim>\<open>fetch\<close> turns into
  the response 500 \<^verbatim>\<open>Error processing request\<close>, with nothing stored.
\<close>

definition handleCell :: "int \<Rightarrow> game \<Rightarrow> int \<Rightarrow> int \<Rightarrow> error + game option" where
  "handleCell now g row col =
     (if gameOver g then Inr None
      else (case cellMove now g row col of
              Inl e \<Rightarrow> Inl e
            | Inr g1 \<Rightarrow> Inr (Some (winCheck now g1))))"

section \<open>Persistence\<close>

text \<open>
  The handler stores \<^verbatim>\<open>JSON.stringify(game)\<close> and reads the game back with
  \<^verbatim>\<open>JSON.parse\<close>. Both are built into the language; they are modelled here on JSON
  values, as ECMAScript defines them for an object of this shape: \<^verbatim>\<open>stringify\<close>
  writes the properties in the order of the object literal in \<^verbatim>\<open>createNewGame\<close>,
  numbers and booleans as they are, arrays element by element, and leaves out a property
  whose value is \<^verbatim>\<open>undefined\<close>; \<^verbatim>\<open>parse\<close> builds the object the text
  denotes, and a property the text does not have reads as \<^verbatim>\<open>undefined\<close>. The
  step from a JSON value to its text and back is the platform's and is not modelled.
\<close>

datatype json = JNull | JBool bool | JNum int | JArr "json list" | JObj "(string \<times> json) list"

definition stringifyGame :: "game \<Rightarrow> json" where
  "stringifyGame g =
     JObj ([(''board'', JArr (map (\<lambda>r. JArr (map JNum r)) (board g))),
            (''mask'', JArr (map (\<lambda>r. JArr (map JBool r)) (mask g))),
            (''flags'', JArr (map (\<lambda>r. JArr (map JBool r)) (flags g))),
            (''gameOver'', JBool (gameOver g)),
            (''won'', JBool (won g)),
            (''startTime'', JNum (startTime g)),
            (''moves'', JNum (moves g))]
           @ (case endTime g of None \<Rightarrow> [] | Some t \<Rightarrow> [(''endTime'', JNum t)]))"

text \<open>
  Reading the parsed object as a game. The source reads the properties where it needs
  them and checks nothing; a value that is not a game of this shape is \<open>None\<close> here.
\<close>

fun numOf :: "json \<Rightarrow> int option" where
  "numOf (JNum n) = Some n"
| "numOf _ = None"

fun boolOf :: "json \<Rightarrow> bool option" where
  "boolOf (JBool b) = Some b"
| "boolOf _ = None"

fun allSome :: "'a option list \<Rightarrow> 'a list option" where
  "allSome [] = Some []"
| "allSome (x # xs) =
     (case x of None \<Rightarrow> None
      | Some y \<Rightarrow> (case allSome xs of None \<Rightarrow> None | Some ys \<Rightarrow> Some (y # ys)))"

fun arrOf :: "(json \<Rightarrow> 'a option) \<Rightarrow> json \<Rightarrow> 'a list option" where
  "arrOf f (JArr xs) = allSome (map f xs)"
| "arrOf f _ = None"

definition gridOf :: "(json \<Rightarrow> 'a option) \<Rightarrow> json \<Rightarrow> 'a grid option" where
  "gridOf f j = arrOf (arrOf f) j"

fun parseGame :: "json \<Rightarrow> game option" where
  "parseGame (JObj kvs) =
     (case (Option.bind (map_of kvs ''board'') (gridOf numOf),
            Option.bind (map_of kvs ''mask'') (gridOf boolOf),
            Option.bind (map_of kvs ''flags'') (gridOf boolOf),
            Option.bind (map_of kvs ''gameOver'') boolOf,
            Option.bind (map_of kvs ''won'') boolOf,
            Option.bind (map_of kvs ''startTime'') numOf,
            Option.bind (map_of kvs ''moves'') numOf) of
        (Some b, Some m, Some f, Some go, Some w, Some st, Some mv) \<Rightarrow>
          (case map_of kvs ''endTime'' of
             None \<Rightarrow>
               Some \<lparr> board = b, mask = m, flags = f, gameOver = go, won = w,
                      startTime = st, moves = mv, endTime = None \<rparr>
           | Some j \<Rightarrow>
               (case numOf j of
                  None \<Rightarrow> None
                | Some t \<Rightarrow>
                    Some \<lparr> board = b, mask = m, flags = f, gameOver = go, won = w,
                           startTime = st, moves = mv, endTime = Some t \<rparr>))
      | _ \<Rightarrow> None)"
| "parseGame _ = None"

text \<open>
  The store maps the chat to the stored game (the key is \<^verbatim>\<open>game:${chatId}\<close>).
  \<open>handleStart\<close> is the \<^verbatim>\<open>/start\<close> and \<^verbatim>\<open>/newgame\<close> branch of
  \<^verbatim>\<open>handleRequest\<close>, \<open>handleCallback\<close> the branch for the callback data
  \<^verbatim>\<open>c_row_col\<close>: no stored game, nothing happens; a finished game is stored and then
  deleted.
\<close>

type_synonym store = "int \<rightharpoonup> json"

definition handleStart :: "(int \<times> int) list \<Rightarrow> int \<Rightarrow> store \<Rightarrow> int \<Rightarrow> store option" where
  "handleStart rnd now st chatId =
     (case createNewGame rnd now of
        None \<Rightarrow> None
      | Some g \<Rightarrow> Some (st(chatId \<mapsto> stringifyGame g)))"

definition handleCallback :: "int \<Rightarrow> store \<Rightarrow> int \<Rightarrow> int \<Rightarrow> int \<Rightarrow> error + store" where
  "handleCallback now st chatId row col =
     (case st chatId of
        None \<Rightarrow> Inr st
      | Some gameStr \<Rightarrow>
          (case parseGame gameStr of
             None \<Rightarrow> Inl TypeError
           | Some g \<Rightarrow>
               (case handleCell now g row col of
                  Inl e \<Rightarrow> Inl e
                | Inr None \<Rightarrow> Inr st
                | Inr (Some g') \<Rightarrow>
                    (let st' = st(chatId \<mapsto> stringifyGame g')
                     in Inr (if gameOver g' then st'(chatId := None) else st')))))"

section \<open>Reachable games\<close>

text \<open>
  \<^verbatim>\<open>Math.floor(Math.random() * ROWS)\<close> lies in \<open>0 .. ROWS-1\<close>, and likewise for
  the columns.
\<close>

definition drawsOk :: "(int \<times> int) list \<Rightarrow> bool" where
  "drawsOk rnd \<longleftrightarrow> list_all (\<lambda>(r, c). isValidPosition r c) rnd"

text \<open>
  The games the program can hold: a new game, or what the handler stores after a cell
  action on a game it held.
\<close>

inductive reachable :: "game \<Rightarrow> bool" where
  new: "drawsOk rnd \<Longrightarrow> createNewGame rnd now = Some g \<Longrightarrow> reachable g"
| step: "reachable g \<Longrightarrow> handleCell now g row col = Inr (Some g') \<Longrightarrow> reachable g'"

section \<open>Notions of the specification\<close>

text \<open>
  The shape of a game as \<^verbatim>\<open>createNewGame\<close> builds it: three grids of \<open>ROWS\<close>
  rows of \<open>COLS\<close> cells.
\<close>

definition wf_game :: "game \<Rightarrow> bool" where
  "wf_game g \<longleftrightarrow> wf_grid (board g) \<and> wf_grid (mask g) \<and> wf_grid (flags g)"

text \<open>
  The specification's count of adjacent mines, written without the table of directions:
  the cells of the grid other than the cell itself that are at most one row and one
  column away and hold \<open>-1\<close>.
\<close>

definition adjacent :: "int \<times> int \<Rightarrow> int \<times> int \<Rightarrow> bool" where
  "adjacent p q \<longleftrightarrow> p \<noteq> q \<and> \<bar>fst p - fst q\<bar> \<le> 1 \<and> \<bar>snd p - snd q\<bar> \<le> 1"

definition neighbourMines :: "int grid \<Rightarrow> int \<Rightarrow> int \<Rightarrow> int" where
  "neighbourMines b row col =
     int (length (filter (\<lambda>(r, c). adjacent (r, c) (row, col) \<and> at b r c = -1) allCells))"

definition mineCount :: "int grid \<Rightarrow> int" where
  "mineCount b = int (length (filter (\<lambda>(r, c). at b r c = -1) allCells))"

definition boardInvariant :: "int grid \<Rightarrow> bool" where
  "boardInvariant b \<longleftrightarrow>
     list_all (\<lambda>(r, c). at b r c \<noteq> -1 \<longrightarrow> at b r c = neighbourMines b r c) allCells"

text \<open>The number of revealed cells, and of the cells one mask has revealed beyond another.\<close>

definition revealedCount :: "bool grid \<Rightarrow> int" where
  "revealedCount m = int (length (filter (\<lambda>(r, c). at m r c) allCells))"

definition newlyRevealed :: "bool grid \<Rightarrow> bool grid \<Rightarrow> int" where
  "newlyRevealed m m' =
     int (length (filter (\<lambda>(r, c). \<not> at m r c \<and> at m' r c) allCells))"

text \<open>Mask monotonicity between two masks: what was revealed stays revealed.\<close>

definition maskLe :: "bool grid \<Rightarrow> bool grid \<Rightarrow> bool" where
  "maskLe m m' \<longleftrightarrow> list_all (\<lambda>(r, c). at m r c \<longrightarrow> at m' r c) allCells"

text \<open>Flags block the reveal: a flagged cell has the mask entry it had.\<close>

definition flagsKept :: "bool grid \<Rightarrow> bool grid \<Rightarrow> bool grid \<Rightarrow> bool" where
  "flagsKept f m m' \<longleftrightarrow> list_all (\<lambda>(r, c). at f r c \<longrightarrow> at m' r c = at m r c) allCells"

text \<open>
  What one call of \<^verbatim>\<open>revealEmpty\<close> with budget \<open>m\<close> does to a game: only the
  mask changes, it keeps its shape, its revealed cells and the entries of the flagged
  cells, and the budget returned is
  \<open>m\<close> less the number of cells the call revealed.
\<close>

definition revealStep :: "game \<Rightarrow> int \<Rightarrow> game \<times> int \<Rightarrow> bool" where
  "revealStep g m res \<longleftrightarrow>
     (case res of (g', m') \<Rightarrow>
        g'\<lparr>mask := mask g\<rparr> = g \<and> wf_grid (mask g') \<and> maskLe (mask g) (mask g') \<and>
        flagsKept (flags g) (mask g) (mask g') \<and>
        revealedCount (mask g') = revealedCount (mask g) + (m - m') \<and>
        m' \<le> m \<and> (0 \<le> m \<longrightarrow> 0 \<le> m') \<and> (m \<le> 0 \<longrightarrow> m' = m))"

text \<open>
  The neighbours of a cell in the grid, and among them the flagged ones and the hidden
  ones that carry no flag, as the specification of the chord names them.
\<close>

definition neighbours :: "int \<Rightarrow> int \<Rightarrow> (int \<times> int) list" where
  "neighbours row col = filter (\<lambda>p. adjacent p (row, col)) allCells"

definition flaggedNeighbours :: "game \<Rightarrow> int \<Rightarrow> int \<Rightarrow> (int \<times> int) list" where
  "flaggedNeighbours g row col = filter (\<lambda>(r, c). at (flags g) r c) (neighbours row col)"

definition hiddenNeighbours :: "game \<Rightarrow> int \<Rightarrow> int \<Rightarrow> (int \<times> int) list" where
  "hiddenNeighbours g row col =
     filter (\<lambda>(r, c). \<not> at (flags g) r c \<and> \<not> at (mask g) r c) (neighbours row col)"

text \<open>The flag counts of the win condition.\<close>

definition totalFlagged :: "game \<Rightarrow> int" where
  "totalFlagged g = int (length (filter (\<lambda>(r, c). at (flags g) r c) allCells))"

definition correctlyFlagged :: "game \<Rightarrow> int" where
  "correctlyFlagged g =
     int (length (filter (\<lambda>(r, c). at (flags g) r c \<and> at (board g) r c = -1) allCells))"

text \<open>The in-grid cells around a cell in the order of \<open>DIRECTIONS\<close>.\<close>

definition dirCells :: "int \<Rightarrow> int \<Rightarrow> (int \<times> int) list" where
  "dirCells row col =
     filter (\<lambda>(r, c). isValidPosition r c) (map (\<lambda>(dx, dy). (row + dx, col + dy)) DIRECTIONS)"

text \<open>
  The win condition of the handler, and what holds of every game the program can hold:
  its shape, and while it is in progress that it is not won, has no end time, does not
  meet the win condition, and has no cell both flagged and revealed.
\<close>

definition winning :: "game \<Rightarrow> bool" where
  "winning g \<longleftrightarrow> correctlyFlagged g = MINES \<and> totalFlagged g = MINES"

definition flagsHidden :: "game \<Rightarrow> bool" where
  "flagsHidden g \<longleftrightarrow> list_all (\<lambda>(r, c). at (flags g) r c \<longrightarrow> \<not> at (mask g) r c) allCells"

definition gameInv :: "game \<Rightarrow> bool" where
  "gameInv g \<longleftrightarrow>
     wf_game g \<and> boardInvariant (board g) \<and> mineCount (board g) = MINES \<and>
     (\<not> gameOver g \<longrightarrow> \<not> won g \<and> endTime g = None \<and> \<not> winning g \<and> flagsHidden g)"

section \<open>Sessions and example games\<close>

text \<open>
  A session: cell actions, each with the time it is handled at, applied one after the
  other, each to the game the one before has stored. \<open>None\<close> when an action stores
  nothing.
\<close>

fun play :: "game \<Rightarrow> (int \<times> int \<times> int) list \<Rightarrow> game option" where
  "play g [] = Some g"
| "play g ((now, row, col) # cs) =
     (case handleCell now g row col of
        Inr (Some g') \<Rightarrow> play g' cs
      | _ \<Rightarrow> None)"

text \<open>
  A run of \<^verbatim>\<open>createNewGame\<close>: the draws, with the cell \<open>(0, 0)\<close> drawn twice, the
  board they give and the new game, created at time \<open>100\<close>.
\<close>

definition exampleDraws :: "(int \<times> int) list" where
  "exampleDraws =
     [(0, 0), (0, 0), (0, 1), (1, 0), (7, 7), (3, 3), (3, 4), (4, 3), (5, 6), (0, 7), (7, 0)]"

definition exampleBoard :: "int grid" where
  "exampleBoard =
    [[-1, -1,  1,  0,  0,  0,  1, -1],
     [-1,  3,  1,  0,  0,  0,  1,  1],
     [ 1,  1,  1,  2,  2,  1,  0,  0],
     [ 0,  0,  2, -1, -1,  1,  0,  0],
     [ 0,  0,  2, -1,  3,  2,  1,  1],
     [ 0,  0,  1,  1,  1,  1, -1,  1],
     [ 1,  1,  0,  0,  0,  1,  2,  2],
     [-1,  1,  0,  0,  0,  0,  1, -1]]"

definition game0 :: game where
  "game0 = \<lparr> board = exampleBoard, mask = newGrid False, flags = newGrid False,
              gameOver = False, won = False, startTime = 100, moves = 0, endTime = None \<rparr>"

text \<open>
  Games of a session on the example game. \<open>game1\<close>: after the click on \<open>(7, 3)\<close>,
  which opens 28 cells. \<open>game2\<close>: after the chord on \<open>(4, 2)\<close> that follows, which
  flags the mines \<open>(3, 3)\<close> and \<open>(4, 3)\<close>. \<open>game9\<close>: ten moves into the session
  \<open>session9\<close>, with nine of the ten mines flagged and the safe cells \<open>(4, 4)\<close> and
  \<open>(5, 7)\<close> still hidden.
\<close>

definition mask1 :: "bool grid" where
  "mask1 =
    [[False, False, False, False, False, False, False, False],
     [False, False, False, False, False, False, False, False],
     [True,  True,  True,  False, False, False, False, False],
     [True,  True,  True,  False, False, False, False, False],
     [True,  True,  True,  False, False, False, False, False],
     [True,  True,  True,  True,  True,  True,  False, False],
     [True,  True,  True,  True,  True,  True,  True,  False],
     [False, True,  True,  True,  True,  True,  True,  False]]"

definition game1 :: game where
  "game1 = game0\<lparr>mask := mask1, moves := 1\<rparr>"

definition flags2 :: "bool grid" where
  "flags2 =
    [[False, False, False, False, False, False, False, False],
     [False, False, False, False, False, False, False, False],
     [False, False, False, False, False, False, False, False],
     [False, False, False, True,  False, False, False, False],
     [False, False, False, True,  False, False, False, False],
     [False, False, False, False, False, False, False, False],
     [False, False, False, False, False, False, False, False],
     [False, False, False, False, False, False, False, False]]"

definition game2 :: game where
  "game2 = game1\<lparr>flags := flags2, moves := 2\<rparr>"

definition session9 :: "(int \<times> int \<times> int) list" where
  "session9 =
     [(110, 7, 3), (120, 0, 4), (130, 1, 1), (140, 6, 7), (150, 1, 1), (160, 0, 6),
      (170, 4, 2), (180, 2, 4), (190, 6, 5), (200, 7, 6)]"

definition mask9 :: "bool grid" where
  "mask9 =
    [[False, False, True,  True,  True,  True,  True,  False],
     [False, True,  True,  True,  True,  True,  True,  True],
     [True,  True,  True,  True,  True,  True,  True,  True],
     [True,  True,  True,  False, False, True,  True,  True],
     [True,  True,  True,  False, False, True,  True,  True],
     [True,  True,  True,  True,  True,  True,  False, False],
     [True,  True,  True,  True,  True,  True,  True,  True],
     [False, True,  True,  True,  True,  True,  True,  False]]"

definition flags9 :: "bool grid" where
  "flags9 =
    [[True,  True,  False, False, False, False, False, True],
     [True,  False, False, False, False, False, False, False],
     [False, False, False, False, False, False, False, False],
     [False, False, False, True,  True,  False, False, False],
     [False, False, False, True,  False, False, False, False],
     [False, False, False, False, False, False, True,  False],
     [False, False, False, False, False, False, False, False],
     [False, False, False, False, False, False, False, True]]"

definition game9 :: game where
  "game9 = game0\<lparr>mask := mask9, flags := flags9, moves := 10\<rparr>"

text \<open>
  A game put together by hand, with a wrong flag: \<open>game1\<close> with flags on the safe cell
  \<open>(2, 3)\<close> and on the mine \<open>(3, 3)\<close>. The revealed cell \<open>(3, 2)\<close> shows \<open>2\<close>, has
  these two flagged neighbours and one more hidden neighbour, the mine \<open>(4, 3)\<close>.
\<close>

definition flagsB :: "bool grid" where
  "flagsB =
    [[False, False, False, False, False, False, False, False],
     [False, False, False, False, False, False, False, False],
     [False, False, False, True,  False, False, False, False],
     [False, False, False, True,  False, False, False, False],
     [False, False, False, False, False, False, False, False],
     [False, False, False, False, False, False, False, False],
     [False, False, False, False, False, False, False, False],
     [False, False, False, False, False, False, False, False]]"

definition gameB :: game where
  "gameB = game1\<lparr>flags := flagsB\<rparr>"

section \<open>Grids\<close>

lemma isValidPosition_iff: "isValidPosition r c \<longleftrightarrow> 0 \<le> r \<and> r < 8 \<and> 0 \<le> c \<and> c < 8"
  by (simp add: isValidPosition_def ROWS_def COLS_def)

lemma wf_grid_length: "wf_grid g \<Longrightarrow> length g = 8"
  by (simp add: wf_grid_def ROWS_def)

lemma wf_grid_row: "wf_grid g \<Longrightarrow> i < 8 \<Longrightarrow> length (g ! i) = 8"
  by (simp add: wf_grid_def ROWS_def COLS_def list_all_length)

lemma wf_grid_setAt: "wf_grid g \<Longrightarrow> wf_grid (setAt g r c v)"
  by (cases "nat r < length g")
     (auto simp: wf_grid_def setAt_def list_all_length nth_list_update)

lemma at_setAt:
  "wf_grid g \<Longrightarrow> isValidPosition r c \<Longrightarrow> isValidPosition r' c' \<Longrightarrow>
   at (setAt g r c v) r' c' = (if r' = r \<and> c' = c then v else at g r' c')"
  by (auto simp: at_def setAt_def isValidPosition_iff nth_list_update wf_grid_length wf_grid_row)

lemma wf_grid_newGrid: "wf_grid (newGrid v)"
  by (simp add: wf_grid_def newGrid_def list_all_length ROWS_def COLS_def)

lemma at_newGrid: "isValidPosition r c \<Longrightarrow> at (newGrid v) r c = v"
proof -
  assume "isValidPosition r c"
  then have "nat r < 8" "nat c < 8" by (auto simp: isValidPosition_iff)
  then show ?thesis by (simp add: at_def newGrid_def ROWS_def COLS_def)
qed

lemma set_rowIndices: "set rowIndices = {r. 0 \<le> r \<and> r < 8}"
  apply (auto simp: rowIndices_def ROWS_def)
  subgoal for x by (rule image_eqI [of _ _ "nat x"]) auto
  done

lemma set_colIndices: "set colIndices = {r. 0 \<le> r \<and> r < 8}"
  apply (auto simp: colIndices_def COLS_def)
  subgoal for x by (rule image_eqI [of _ _ "nat x"]) auto
  done

lemma distinct_rowIndices: "distinct rowIndices"
  by (simp add: rowIndices_def distinct_map inj_on_def)

lemma distinct_colIndices: "distinct colIndices"
  by (simp add: colIndices_def distinct_map inj_on_def)

lemma set_allCells: "set allCells = {(r, c). isValidPosition r c}"
  by (auto simp: allCells_def set_rowIndices set_colIndices isValidPosition_iff)

lemma colIndices_nonempty: "colIndices \<noteq> []"
  by (simp add: colIndices_def COLS_def)

lemma distinct_allCells: "distinct allCells"
  unfolding allCells_def
  using colIndices_nonempty
  by (intro distinct_concat)
     (auto simp: distinct_map distinct_rowIndices distinct_colIndices inj_on_def)

section \<open>Counting cells\<close>

lemma filter_length_flip:
  "distinct xs \<Longrightarrow> p \<in> set xs \<Longrightarrow> \<not> P p \<Longrightarrow> Q p \<Longrightarrow> (\<And>x. x \<in> set xs \<Longrightarrow> x \<noteq> p \<Longrightarrow> Q x = P x) \<Longrightarrow>
   length (filter Q xs) = Suc (length (filter P xs))"
proof (induction xs)
  case Nil
  then show ?case by simp
next
  case (Cons x xs)
  show ?case
  proof (cases "x = p")
    case True
    with Cons.prems have "p \<notin> set xs" by simp
    then have "filter Q xs = filter P xs"
      using Cons.prems(5) by (intro filter_cong) (auto simp del: split_paired_All)
    with True Cons.prems show ?thesis by simp
  next
    case False
    with Cons show ?thesis by auto
  qed
qed

lemma filter_length_split:
  "(\<And>x. x \<in> set xs \<Longrightarrow> A x \<Longrightarrow> B x) \<Longrightarrow>
   length (filter B xs) = length (filter A xs) + length (filter (\<lambda>x. \<not> A x \<and> B x) xs)"
  by (induction xs) auto

lemma maskLe_iff:
  "maskLe m m' \<longleftrightarrow> (\<forall>r c. isValidPosition r c \<longrightarrow> at m r c \<longrightarrow> at m' r c)"
  by (auto simp: maskLe_def list_all_iff set_allCells)

lemma maskLe_refl: "maskLe m m"
  by (simp add: maskLe_iff)

lemma maskLe_trans: "maskLe m m' \<Longrightarrow> maskLe m' m'' \<Longrightarrow> maskLe m m''"
  by (simp add: maskLe_iff)

lemma maskLe_setAt: "wf_grid m \<Longrightarrow> isValidPosition r c \<Longrightarrow> maskLe m (setAt m r c True)"
  by (simp add: maskLe_iff at_setAt)

lemma revealedCount_setAt:
  assumes "wf_grid m" "isValidPosition r c" "\<not> at m r c"
  shows "revealedCount (setAt m r c True) = revealedCount m + 1"
proof -
  have "length (filter (\<lambda>(r', c'). at (setAt m r c True) r' c') allCells)
      = Suc (length (filter (\<lambda>(r', c'). at m r' c') allCells))"
  proof (rule filter_length_flip [where p = "(r, c)"])
    show "distinct allCells" by (rule distinct_allCells)
    show "(r, c) \<in> set allCells" using assms(2) by (simp add: set_allCells)
    show "\<not> (case (r, c) of (r', c') \<Rightarrow> at m r' c')" using assms(3) by simp
    show "case (r, c) of (r', c') \<Rightarrow> at (setAt m r c True) r' c'"
      using assms by (simp add: at_setAt)
  next
    fix x :: "int \<times> int"
    assume "x \<in> set allCells" "x \<noteq> (r, c)"
    then show "(case x of (r', c') \<Rightarrow> at (setAt m r c True) r' c')
        = (case x of (r', c') \<Rightarrow> at m r' c')"
      using assms by (auto simp: set_allCells at_setAt)
  qed
  then show ?thesis by (simp add: revealedCount_def)
qed


section \<open>Reveal: frame, shape, monotonicity and budget\<close>

declare revealEmpty.simps [simp del]

lemma flagsKept_iff:
  "flagsKept f m m' \<longleftrightarrow>
     (\<forall>r c. isValidPosition r c \<longrightarrow> at f r c \<longrightarrow> at m' r c = at m r c)"
  by (auto simp: flagsKept_def list_all_iff set_allCells)

lemma revealStep_refl: "wf_grid (mask g) \<Longrightarrow> revealStep g m (g, m)"
  by (simp add: revealStep_def maskLe_refl flagsKept_iff)

lemma revealStep_trans:
  assumes "revealStep g m (g1, m1)" "revealStep g1 m1 res"
  shows "revealStep g m res"
proof -
  obtain g2 m2 where res: "res = (g2, m2)" by (cases res)
  from assms(1) have a: "g1\<lparr>mask := mask g\<rparr> = g" "maskLe (mask g) (mask g1)"
    "flagsKept (flags g) (mask g) (mask g1)"
    "revealedCount (mask g1) = revealedCount (mask g) + (m - m1)"
    "m1 \<le> m" "0 \<le> m \<longrightarrow> 0 \<le> m1" "m \<le> 0 \<longrightarrow> m1 = m"
    by (simp_all add: revealStep_def)
  from assms(2) res have b: "g2\<lparr>mask := mask g1\<rparr> = g1" "wf_grid (mask g2)"
    "maskLe (mask g1) (mask g2)" "flagsKept (flags g1) (mask g1) (mask g2)"
    "revealedCount (mask g2) = revealedCount (mask g1) + (m1 - m2)"
    "m2 \<le> m1" "0 \<le> m1 \<longrightarrow> 0 \<le> m2" "m1 \<le> 0 \<longrightarrow> m2 = m1"
    by (simp_all add: revealStep_def)
  have "g2\<lparr>mask := mask g\<rparr> = (g2\<lparr>mask := mask g1\<rparr>)\<lparr>mask := mask g\<rparr>" by simp
  also have "\<dots> = g" using a(1) b(1) by simp
  finally have frame: "g2\<lparr>mask := mask g\<rparr> = g" .
  have le: "maskLe (mask g) (mask g2)" using a(2) b(3) by (rule maskLe_trans)
  have "flags g1 = flags g" using a(1) by (cases g; cases g1; simp)
  with a(3) b(4) have fk: "flagsKept (flags g) (mask g) (mask g2)"
    by (simp add: flagsKept_iff)
  show ?thesis
    unfolding res revealStep_def using frame le fk a b by simp
qed

lemma revealStep_one:
  assumes "wf_grid (mask g)" "isValidPosition r c" "\<not> at (mask g) r c" "0 < m"
    "\<not> at (flags g) r c"
  shows "revealStep g m (g\<lparr>mask := setAt (mask g) r c True\<rparr>, m - 1)"
  using assms
  by (auto simp: revealStep_def wf_grid_setAt maskLe_setAt revealedCount_setAt flagsKept_iff
        at_setAt)

lemma reveal_step:
  "wf_grid (mask g) \<Longrightarrow> revealStep g m (revealEmpty g row col m)"
  "wf_grid (mask g) \<Longrightarrow> revealStep g m (revealDirs g row col ds m)"
proof (induction g row col m and g row col ds m rule: revealEmpty_revealDirs.induct)
  case (1 g row col maxReveals)
  show ?case
  proof (cases "\<not> isValidPosition row col \<or> at (mask g) row col \<or> at (flags g) row col
                 \<or> maxReveals \<le> 0")
    case True
    then show ?thesis
      using "1.prems" by (simp add: revealEmpty.simps revealStep_refl)
  next
    case False
    let ?g' = "g\<lparr>mask := setAt (mask g) row col True\<rparr>"
    from False "1.prems" have one: "revealStep g maxReveals (?g', maxReveals - 1)"
      by (intro revealStep_one) auto
    have wf': "wf_grid (mask ?g')" using "1.prems" by (simp add: wf_grid_setAt)
    show ?thesis
    proof (cases "at (board ?g') row col = 0")
      case True
      with False wf' have "revealStep ?g' (maxReveals - 1)
          (revealDirs ?g' row col DIRECTIONS (maxReveals - 1))"
        by (intro "1.IH") auto
      with one have "revealStep g maxReveals (revealDirs ?g' row col DIRECTIONS (maxReveals - 1))"
        by (rule revealStep_trans)
      with False True show ?thesis by (simp add: revealEmpty.simps)
    next
      case False': False
      with False one show ?thesis by (simp add: revealEmpty.simps)
    qed
  qed
next
  case (2 g row col maxReveals)
  then show ?case by (simp add: revealStep_refl)
next
  case (3 g row col dx dy ds maxReveals)
  obtain g' m' where r: "revealEmpty g (row + dx) (col + dy) maxReveals = (g', m')"
    by (cases "revealEmpty g (row + dx) (col + dy) maxReveals")
  with "3.IH"(1) "3.prems" have s1: "revealStep g maxReveals (g', m')" by simp
  then have "wf_grid (mask g')" by (simp add: revealStep_def)
  with "3.IH"(2) r have "revealStep g' m' (revealDirs g' row col ds m')" by simp
  with s1 have "revealStep g maxReveals (revealDirs g' row col ds m')"
    by (rule revealStep_trans)
  with r show ?case by simp
qed

lemma newlyRevealed_diff:
  assumes "maskLe m m'"
  shows "newlyRevealed m m' = revealedCount m' - revealedCount m"
proof -
  have "length (filter (\<lambda>(r, c). at m' r c) allCells)
      = length (filter (\<lambda>(r, c). at m r c) allCells)
        + length (filter (\<lambda>x. \<not> (case x of (r, c) \<Rightarrow> at m r c) \<and> (case x of (r, c) \<Rightarrow> at m' r c)) allCells)"
    using assms by (intro filter_length_split) (auto simp: maskLe_def list_all_iff)
  moreover have "(\<lambda>x. \<not> (case x of (r, c) \<Rightarrow> at m r c) \<and> (case x of (r, c) \<Rightarrow> at m' r c))
      = (\<lambda>(r, c). \<not> at m r c \<and> at m' r c)"
    by auto
  ultimately show ?thesis
    by (simp add: newlyRevealed_def revealedCount_def)
qed

lemma revealEmpty_result:
  assumes "wf_grid (mask g)" "revealEmpty g row col m = (g', m')"
  shows "g'\<lparr>mask := mask g\<rparr> = g" "wf_grid (mask g')" "maskLe (mask g) (mask g')"
    "newlyRevealed (mask g) (mask g') = m - m'" "m' \<le> m" "0 \<le> m \<longrightarrow> 0 \<le> m'"
    "m \<le> 0 \<longrightarrow> m' = m" "flagsKept (flags g) (mask g) (mask g')"
proof -
  from reveal_step(1) [OF assms(1), of m row col] assms(2)
  have s: "revealStep g m (g', m')" by simp
  then show "g'\<lparr>mask := mask g\<rparr> = g" "wf_grid (mask g')" "maskLe (mask g) (mask g')"
    "m' \<le> m" "0 \<le> m \<longrightarrow> 0 \<le> m'" "m \<le> 0 \<longrightarrow> m' = m"
    "flagsKept (flags g) (mask g) (mask g')"
    by (simp_all add: revealStep_def)
  from s show "newlyRevealed (mask g) (mask g') = m - m'"
    by (simp add: revealStep_def newlyRevealed_diff)
qed


section \<open>Counting adjacent mines\<close>

lemma fold_count:
  "fold (\<lambda>x n. if P x then n + 1 else n) xs k = k + int (length (filter P xs))"
  by (induction xs arbitrary: k) auto

lemma countAround_filter:
  "countAround b row col =
     int (length (filter (\<lambda>(dx, dy). isValidPosition (row + dx) (col + dy)
                                   \<and> at b (row + dx) (col + dy) = -1) DIRECTIONS))"
proof -
  have h: "(\<lambda>(dx, dy) count.
           if isValidPosition (row + dx) (col + dy) \<and> at b (row + dx) (col + dy) = -1
           then count + 1 else count)
      = (\<lambda>x n. if (case x of (dx, dy) \<Rightarrow> isValidPosition (row + dx) (col + dy)
                     \<and> at b (row + dx) (col + dy) = -1) then n + 1 else n)"
    by (auto simp: fun_eq_iff)
  show ?thesis
    unfolding countAround_def h by (simp add: fold_count)
qed

lemma adjacent_DIRECTIONS:
  "adjacent (r', c') (r, c) \<longleftrightarrow> (r' - r, c' - c) \<in> set DIRECTIONS"
proof -
  have a: "\<bar>r' - r\<bar> \<le> 1 \<longleftrightarrow> r' - r = -1 \<or> r' - r = 0 \<or> r' - r = 1" by arith
  have b: "\<bar>c' - c\<bar> \<le> 1 \<longleftrightarrow> c' - c = -1 \<or> c' - c = 0 \<or> c' - c = 1" by arith
  have c: "(r', c') \<noteq> (r, c) \<longleftrightarrow> r' - r \<noteq> 0 \<or> c' - c \<noteq> 0" by auto
  have d: "(dr \<noteq> 0 \<or> dc \<noteq> 0) \<and> (dr = -1 \<or> dr = 0 \<or> dr = 1) \<and> (dc = -1 \<or> dc = 0 \<or> dc = 1)
        \<longleftrightarrow> (dr, dc) \<in> set DIRECTIONS" for dr dc :: int
    by (auto simp: DIRECTIONS_def)
  show ?thesis
    unfolding adjacent_def fst_conv snd_conv a b c by (rule d)
qed

lemma distinct_DIRECTIONS: "distinct DIRECTIONS"
  by (simp add: DIRECTIONS_def)

lemma neighbourMines_countAround: "neighbourMines b row col = countAround b row col"
proof -
  let ?f = "\<lambda>(dx, dy). (row + dx, col + dy)"
  let ?M = "\<lambda>(r, c). isValidPosition r c \<and> at b r c = -1"
  let ?A = "\<lambda>(r, c). adjacent (r, c) (row, col) \<and> at b r c = -1"
  have inj: "inj_on ?f (set DIRECTIONS)" by (auto simp: inj_on_def)
  have "filter (\<lambda>(dx, dy). isValidPosition (row + dx) (col + dy) \<and> at b (row + dx) (col + dy) = -1)
          DIRECTIONS = filter (?M \<circ> ?f) DIRECTIONS"
    by (intro filter_cong) auto
  then have "countAround b row col = int (length (map ?f (filter (?M \<circ> ?f) DIRECTIONS)))"
    by (simp add: countAround_filter)
  also have "map ?f (filter (?M \<circ> ?f) DIRECTIONS) = filter ?M (map ?f DIRECTIONS)"
    by (simp add: filter_map)
  finally have c: "countAround b row col = int (length (filter ?M (map ?f DIRECTIONS)))" .
  have d1: "distinct (filter ?M (map ?f DIRECTIONS))"
    using inj by (simp add: distinct_map distinct_DIRECTIONS)
  have d2: "distinct (filter ?A allCells)"
    by (simp add: distinct_allCells)
  have "set (filter ?M (map ?f DIRECTIONS)) = set (filter ?A allCells)"
  proof (intro set_eqI iffI)
    fix x assume "x \<in> set (filter ?M (map ?f DIRECTIONS))"
    then obtain dx dy where "(dx, dy) \<in> set DIRECTIONS" "x = (row + dx, col + dy)"
      "isValidPosition (row + dx) (col + dy)" "at b (row + dx) (col + dy) = -1"
      by auto
    then show "x \<in> set (filter ?A allCells)"
      by (simp add: set_allCells adjacent_DIRECTIONS)
  next
    fix x assume "x \<in> set (filter ?A allCells)"
    then obtain r c where x: "x = (r, c)" "isValidPosition r c" "adjacent (r, c) (row, col)"
      "at b r c = -1"
      by (auto simp: set_allCells)
    then have "(r - row, c - col) \<in> set DIRECTIONS" by (simp add: adjacent_DIRECTIONS)
    then have "?f (r - row, c - col) \<in> ?f ` set DIRECTIONS" by (rule imageI)
    with x show "x \<in> set (filter ?M (map ?f DIRECTIONS))" by simp
  qed
  then have "card (set (filter ?M (map ?f DIRECTIONS))) = card (set (filter ?A allCells))"
    by simp
  with d1 d2 have "length (filter ?M (map ?f DIRECTIONS)) = length (filter ?A allCells)"
    by (simp only: distinct_card)
  with c show ?thesis by (simp add: neighbourMines_def)
qed

section \<open>Reveal never opens a mine\<close>

lemma frame_fields:
  assumes "g'\<lparr>mask := x\<rparr> = g"
  shows "board g' = board g" "flags g' = flags g" "gameOver g' = gameOver g" "won g' = won g"
    "startTime g' = startTime g" "moves g' = moves g" "endTime g' = endTime g"
  using assms by (cases g; cases g'; simp)+

lemma zero_neighbours_safe:
  assumes "boardInvariant b" "isValidPosition r c" "at b r c = 0"
    "(dx, dy) \<in> set DIRECTIONS" "isValidPosition (r + dx) (c + dy)"
  shows "at b (r + dx) (c + dy) \<noteq> -1"
proof -
  from assms(1,2,3) have "neighbourMines b r c = 0"
    by (auto simp: boardInvariant_def list_all_iff set_allCells)
  then have "filter (\<lambda>(dx, dy). isValidPosition (r + dx) (c + dy)
                        \<and> at b (r + dx) (c + dy) = -1) DIRECTIONS = []"
    by (simp add: neighbourMines_countAround countAround_filter)
  with assms(4,5) show ?thesis
    by (auto simp: filter_empty_conv)
qed

lemma reveal_safe:
  "wf_grid (mask g) \<Longrightarrow> boardInvariant (board g) \<Longrightarrow>
   (isValidPosition row col \<longrightarrow> at (board g) row col \<noteq> -1) \<Longrightarrow>
   isValidPosition r c \<Longrightarrow> at (board g) r c = -1 \<Longrightarrow>
   at (mask (fst (revealEmpty g row col m))) r c = at (mask g) r c"
  "wf_grid (mask g) \<Longrightarrow> boardInvariant (board g) \<Longrightarrow>
   (\<forall>(dx, dy) \<in> set ds. isValidPosition (row + dx) (col + dy)
       \<longrightarrow> at (board g) (row + dx) (col + dy) \<noteq> -1) \<Longrightarrow>
   isValidPosition r c \<Longrightarrow> at (board g) r c = -1 \<Longrightarrow>
   at (mask (fst (revealDirs g row col ds m))) r c = at (mask g) r c"
proof (induction g row col m and g row col ds m rule: revealEmpty_revealDirs.induct)
  case (1 g row col maxReveals)
  show ?case
  proof (cases "\<not> isValidPosition row col \<or> at (mask g) row col \<or> at (flags g) row col
                 \<or> maxReveals \<le> 0")
    case True
    then show ?thesis by (simp add: revealEmpty.simps)
  next
    case False
    let ?g' = "g\<lparr>mask := setAt (mask g) row col True\<rparr>"
    from False "1.prems" have ne: "\<not> (r = row \<and> c = col)" by auto
    with False "1.prems" have here: "at (mask ?g') r c = at (mask g) r c"
      by (simp add: at_setAt)
    show ?thesis
    proof (cases "at (board ?g') row col = 0")
      case True
      have "at (mask (fst (revealDirs ?g' row col DIRECTIONS (maxReveals - 1)))) r c
          = at (mask ?g') r c"
      proof (rule "1.IH" [OF False refl True])
        show "wf_grid (mask ?g')" using "1.prems"(1) by (simp add: wf_grid_setAt)
        show "boardInvariant (board ?g')" using "1.prems"(2) by simp
        show "\<forall>(dx, dy) \<in> set DIRECTIONS. isValidPosition (row + dx) (col + dy)
                \<longrightarrow> at (board ?g') (row + dx) (col + dy) \<noteq> -1"
          using zero_neighbours_safe [OF "1.prems"(2), of row col] False True by auto
        show "isValidPosition r c" by fact
        show "at (board ?g') r c = -1" using "1.prems"(5) by simp
      qed
      with here False True show ?thesis by (simp add: revealEmpty.simps)
    next
      case False': False
      with here False show ?thesis by (simp add: revealEmpty.simps)
    qed
  qed
next
  case (2 g row col maxReveals)
  then show ?case by simp
next
  case (3 g row col dx dy ds maxReveals)
  obtain g' m' where e: "revealEmpty g (row + dx) (col + dy) maxReveals = (g', m')"
    by (cases "revealEmpty g (row + dx) (col + dy) maxReveals")
  note res = revealEmpty_result [OF "3.prems"(1) e]
  have b: "board g' = board g" using res(1) by (rule frame_fields)
  from "3.prems" have "at (mask (fst (revealEmpty g (row + dx) (col + dy) maxReveals))) r c
      = at (mask g) r c"
    by (intro "3.IH"(1)) auto
  with e have first: "at (mask g') r c = at (mask g) r c" by simp
  have "at (mask (fst (revealDirs g' row col ds m'))) r c = at (mask g') r c"
    using "3.prems" res(2) b by (intro "3.IH"(2) [OF e [symmetric]]) auto
  with first e show ?case by simp
qed

section \<open>Board generation: mines and numbers\<close>

lemma mineCount_newGrid: "mineCount (newGrid 0) = 0"
  by (auto simp: mineCount_def filter_empty_conv set_allCells at_newGrid)

lemma mineCount_setAt:
  assumes "wf_grid b" "isValidPosition r c" "at b r c \<noteq> -1"
  shows "mineCount (setAt b r c (-1)) = mineCount b + 1"
proof -
  have "length (filter (\<lambda>(r', c'). at (setAt b r c (-1)) r' c' = -1) allCells)
      = Suc (length (filter (\<lambda>(r', c'). at b r' c' = -1) allCells))"
  proof (rule filter_length_flip [where p = "(r, c)"])
    show "distinct allCells" by (rule distinct_allCells)
    show "(r, c) \<in> set allCells" using assms(2) by (simp add: set_allCells)
    show "\<not> (case (r, c) of (r', c') \<Rightarrow> at b r' c' = -1)" using assms(3) by simp
    show "case (r, c) of (r', c') \<Rightarrow> at (setAt b r c (-1)) r' c' = -1"
      using assms by (simp add: at_setAt)
  next
    fix x :: "int \<times> int"
    assume "x \<in> set allCells" "x \<noteq> (r, c)"
    then show "(case x of (r', c') \<Rightarrow> at (setAt b r c (-1)) r' c' = -1)
        = (case x of (r', c') \<Rightarrow> at b r' c' = -1)"
      using assms by (auto simp: set_allCells at_setAt)
  qed
  then show ?thesis by (simp add: mineCount_def)
qed

lemma placeMines_count:
  "wf_grid b \<Longrightarrow> drawsOk rnd \<Longrightarrow> mineCount b = n \<Longrightarrow> n \<le> MINES \<Longrightarrow>
   placeMines rnd n b = Some b' \<Longrightarrow> wf_grid b' \<and> mineCount b' = MINES"
proof (induction rnd n b rule: placeMines.induct)
  case (1 minesPlaced b)
  then show ?case by (auto split: if_splits)
next
  case (2 row col rnd minesPlaced b)
  from "2.prems"(2) have ok: "isValidPosition row col" "drawsOk rnd"
    by (simp_all add: drawsOk_def)
  show ?case
  proof (cases "minesPlaced < MINES")
    case False
    with "2.prems" show ?thesis by simp
  next
    case True
    show ?thesis
    proof (cases "at b row col \<noteq> -1")
      case free: True
      with True "2.prems" have "placeMines rnd (minesPlaced + 1) (setAt b row col (-1)) = Some b'"
        by simp
      moreover have "wf_grid (setAt b row col (-1))"
        using "2.prems"(1) by (rule wf_grid_setAt)
      moreover have "mineCount (setAt b row col (-1)) = minesPlaced + 1"
        using "2.prems"(1,3) ok(1) free by (simp add: mineCount_setAt)
      ultimately show ?thesis
        using "2.IH"(1) [OF True free] ok(2) True by simp
    next
      case False
      with True "2.prems" have "placeMines rnd minesPlaced b = Some b'" by simp
      with "2.IH"(2) [OF True False] "2.prems" ok(2) show ?thesis by simp
    qed
  qed
qed

text \<open>The nested loops of \<^verbatim>\<open>calculateNumbers\<close> visit the cells in the order of \<open>allCells\<close>.\<close>

lemma fold_over_concat: "fold f (concat xss) b = fold (fold f) xss b"
  by (induction xss arbitrary: b) auto

lemma calculateNumbers_fold:
  "calculateNumbers b = fold (\<lambda>(r, c). calcCell r c) allCells b"
  by (simp add: calculateNumbers_def allCells_def fold_over_concat fold_map comp_def)

lemma countAround_nonneg: "0 \<le> countAround b r c"
  by (simp add: countAround_filter)

lemma countAround_cong:
  assumes "\<And>r c. isValidPosition r c \<Longrightarrow> (at b' r c = -1) = (at b r c = -1)"
  shows "countAround b' row col = countAround b row col"
proof -
  have "filter (\<lambda>(dx, dy). isValidPosition (row + dx) (col + dy)
                  \<and> at b' (row + dx) (col + dy) = -1) DIRECTIONS
      = filter (\<lambda>(dx, dy). isValidPosition (row + dx) (col + dy)
                  \<and> at b (row + dx) (col + dy) = -1) DIRECTIONS"
    using assms by (intro filter_cong) auto
  then show ?thesis by (simp add: countAround_filter)
qed

lemma wf_grid_calcCell: "wf_grid b \<Longrightarrow> wf_grid (calcCell r c b)"
  by (simp add: calcCell_def wf_grid_setAt)

lemma calcCell_mine:
  assumes "wf_grid b" "isValidPosition r c" "isValidPosition r' c'"
  shows "(at (calcCell r c b) r' c' = -1) = (at b r' c' = -1)"
  using assms countAround_nonneg [of b r c]
  by (auto simp: calcCell_def at_setAt)

lemma calcCell_at:
  assumes "wf_grid b" "isValidPosition r c" "isValidPosition r' c'"
  shows "at (calcCell r c b) r' c' =
     (if r' = r \<and> c' = c \<and> at b r c \<noteq> -1 then countAround b r c else at b r' c')"
  using assms by (auto simp: calcCell_def at_setAt)

lemma calc_fold:
  "wf_grid b \<Longrightarrow> distinct ps \<Longrightarrow> (\<forall>(r, c) \<in> set ps. isValidPosition r c) \<Longrightarrow>
   wf_grid (fold (\<lambda>(r, c). calcCell r c) ps b) \<and>
   (\<forall>r c. isValidPosition r c \<longrightarrow>
      ((at (fold (\<lambda>(r, c). calcCell r c) ps b) r c = -1) = (at b r c = -1)) \<and>
      (at b r c \<noteq> -1 \<longrightarrow>
         at (fold (\<lambda>(r, c). calcCell r c) ps b) r c
           = (if (r, c) \<in> set ps then countAround b r c else at b r c)))"
proof (induction ps arbitrary: b)
  case Nil
  then show ?case by simp
next
  case (Cons p ps)
  obtain pr pc where p: "p = (pr, pc)" by (cases p)
  let ?b1 = "calcCell pr pc b"
  let ?b' = "fold (\<lambda>(r, c). calcCell r c) ps ?b1"
  from Cons.prems have vp: "isValidPosition pr pc" and notin: "(pr, pc) \<notin> set ps"
    and d: "distinct ps" and vs: "\<forall>(r, c) \<in> set ps. isValidPosition r c"
    by (auto simp: p)
  have wf1: "wf_grid ?b1" using Cons.prems(1) by (rule wf_grid_calcCell)
  note ih = Cons.IH [OF wf1 d vs]
  have mine1: "\<And>r c. isValidPosition r c \<Longrightarrow> (at ?b1 r c = -1) = (at b r c = -1)"
    using calcCell_mine [OF Cons.prems(1) vp] by simp
  have "(at ?b' r c = -1) = (at b r c = -1) \<and>
        (at b r c \<noteq> -1 \<longrightarrow>
           at ?b' r c = (if (r, c) \<in> set (p # ps) then countAround b r c else at b r c))"
    if v: "isValidPosition r c" for r c
  proof (intro conjI impI)
    show "(at ?b' r c = -1) = (at b r c = -1)"
      using ih v mine1 by simp
    assume nm: "at b r c \<noteq> -1"
    then have nm1: "at ?b1 r c \<noteq> -1" using mine1 v by simp
    have "at ?b' r c = (if (r, c) \<in> set ps then countAround ?b1 r c else at ?b1 r c)"
      using ih v nm1 by simp
    moreover have "countAround ?b1 r c = countAround b r c"
      using mine1 by (rule countAround_cong)
    moreover have "at ?b1 r c = (if r = pr \<and> c = pc then countAround b r c else at b r c)"
      using calcCell_at [OF Cons.prems(1) vp v] nm by auto
    ultimately show "at ?b' r c
        = (if (r, c) \<in> set (p # ps) then countAround b r c else at b r c)"
      using notin by (auto simp: p)
  qed
  moreover have "wf_grid ?b'" using ih by simp
  ultimately show ?case by (simp add: p)
qed

lemma calculateNumbers_correct:
  assumes "wf_grid b"
  shows "wf_grid (calculateNumbers b)"
    and "mineCount (calculateNumbers b) = mineCount b"
    and "isValidPosition r c \<Longrightarrow> at (calculateNumbers b) r c \<noteq> -1 \<Longrightarrow>
         at (calculateNumbers b) r c = neighbourMines (calculateNumbers b) r c"
proof -
  let ?b' = "calculateNumbers b"
  have v: "\<forall>(r, c) \<in> set allCells. isValidPosition r c"
    by (simp add: set_allCells)
  note cf = calc_fold [OF assms distinct_allCells v, folded calculateNumbers_fold]
  show "wf_grid ?b'" using cf by simp
  have m: "\<And>r c. isValidPosition r c \<Longrightarrow> (at ?b' r c = -1) = (at b r c = -1)"
    using cf by simp
  have "filter (\<lambda>(r, c). at ?b' r c = -1) allCells = filter (\<lambda>(r, c). at b r c = -1) allCells"
    using m by (intro filter_cong) (auto simp: set_allCells)
  then show "mineCount ?b' = mineCount b" by (simp add: mineCount_def)
  assume rc: "isValidPosition r c" "at ?b' r c \<noteq> -1"
  then have "at b r c \<noteq> -1" using m by simp
  with rc have "at ?b' r c = countAround b r c"
    using cf by (simp add: set_allCells)
  also have "\<dots> = countAround ?b' r c"
    using m by (intro countAround_cong [symmetric])
  finally show "at ?b' r c = neighbourMines ?b' r c"
    by (simp add: neighbourMines_countAround)
qed

lemma createNewGame_shape:
  assumes "drawsOk rnd" and "createNewGame rnd now = Some g"
  shows "wf_game g" and "mineCount (board g) = MINES"
    and "isValidPosition r c \<Longrightarrow> at (board g) r c \<noteq> -1 \<Longrightarrow>
         at (board g) r c = neighbourMines (board g) r c"
    and "mask g = newGrid False" and "flags g = newGrid False"
    and "\<not> gameOver g" and "\<not> won g" and "endTime g = None" and "moves g = 0"
proof -
  from assms(2) obtain b where p: "placeMines rnd 0 (newGrid 0) = Some b"
    and g: "g = \<lparr> board = calculateNumbers b, mask = newGrid False, flags = newGrid False,
                  gameOver = False, won = False, startTime = now, moves = 0,
                  endTime = None \<rparr>"
    by (auto simp: createNewGame_def split: option.splits)
  have "wf_grid b \<and> mineCount b = MINES"
    using wf_grid_newGrid assms(1) mineCount_newGrid _ p
    by (rule placeMines_count) (simp add: MINES_def)
  then have wf: "wf_grid b" and mc: "mineCount b = MINES" by simp_all
  note cn = calculateNumbers_correct [OF wf]
  show "wf_game g" using cn(1) by (simp add: g wf_game_def wf_grid_newGrid)
  show "mineCount (board g) = MINES" using cn(2) mc by (simp add: g)
  show "isValidPosition r c \<Longrightarrow> at (board g) r c \<noteq> -1 \<Longrightarrow>
         at (board g) r c = neighbourMines (board g) r c"
    using cn(3) by (simp add: g)
  show "mask g = newGrid False" "flags g = newGrid False" "\<not> gameOver g" "\<not> won g"
    "endTime g = None" "moves g = 0"
    by (simp_all add: g)
qed

section \<open>Unchecked reads on a well-formed grid\<close>

lemma rd_valid: "wf_grid g \<Longrightarrow> isValidPosition r c \<Longrightarrow> rd g r c = Inr (Some (at g r c))"
proof -
  assume wf: "wf_grid g" and "isValidPosition r c"
  then have "nat r < 8" "nat c < 8" "0 \<le> r" "0 \<le> c" by (auto simp: isValidPosition_iff)
  then show ?thesis
    using wf_grid_length [OF wf] wf_grid_row [OF wf, of "nat r"]
    by (auto simp: rd_def at_def)
qed

lemma rd_row_out: "wf_grid g \<Longrightarrow> \<not> (0 \<le> r \<and> r < ROWS) \<Longrightarrow> rd g r c = Inl TypeError"
  by (auto simp: rd_def wf_grid_length ROWS_def)

lemma rd_col_out:
  "wf_grid g \<Longrightarrow> 0 \<le> r \<Longrightarrow> r < ROWS \<Longrightarrow> \<not> (0 \<le> c \<and> c < COLS) \<Longrightarrow> rd g r c = Inr None"
  by (auto simp: rd_def wf_grid_length wf_grid_row ROWS_def COLS_def)

section \<open>The neighbour scans\<close>

lemma set_dirCells: "set (dirCells row col) = set (neighbours row col)"
proof (intro set_eqI iffI)
  fix x assume "x \<in> set (dirCells row col)"
  then obtain dx dy where "(dx, dy) \<in> set DIRECTIONS" "x = (row + dx, col + dy)"
    "isValidPosition (row + dx) (col + dy)"
    by (auto simp: dirCells_def)
  then show "x \<in> set (neighbours row col)"
    by (simp add: neighbours_def set_allCells adjacent_DIRECTIONS)
next
  fix x assume "x \<in> set (neighbours row col)"
  then obtain r c where x: "x = (r, c)" "isValidPosition r c" "adjacent (r, c) (row, col)"
    by (auto simp: neighbours_def set_allCells)
  then have "(r - row, c - col) \<in> set DIRECTIONS" by (simp add: adjacent_DIRECTIONS)
  then have "(\<lambda>(dx, dy). (row + dx, col + dy)) (r - row, c - col)
      \<in> (\<lambda>(dx, dy). (row + dx, col + dy)) ` set DIRECTIONS"
    by (rule imageI)
  with x show "x \<in> set (dirCells row col)" by (simp add: dirCells_def)
qed

lemma distinct_dirCells: "distinct (dirCells row col)"
proof -
  have "inj_on (\<lambda>(dx, dy). (row + dx, col + dy)) (set DIRECTIONS)"
    by (auto simp: inj_on_def)
  then show ?thesis
    by (simp add: dirCells_def distinct_map distinct_DIRECTIONS)
qed

lemma distinct_neighbours: "distinct (neighbours row col)"
  by (simp add: neighbours_def distinct_allCells)

lemma dirCells_filter_length:
  "length (filter P (dirCells row col)) = length (filter P (neighbours row col))"
proof -
  have "set (filter P (dirCells row col)) = set (filter P (neighbours row col))"
    by (simp add: set_dirCells)
  then have "card (set (filter P (dirCells row col))) = card (set (filter P (neighbours row col)))"
    by simp
  then show ?thesis
    using distinct_dirCells [of row col] distinct_neighbours [of row col]
    by (simp only: distinct_card distinct_filter)
qed

lemma dirCells_valid: "(r, c) \<in> set (dirCells row col) \<Longrightarrow> isValidPosition r c"
  by (auto simp: dirCells_def)

lemma scanChord_fold:
  "fold (\<lambda>(dx, dy) (flagCount, unopenedCells).
           let newRow = row + dx; newCol = col + dy in
           if isValidPosition newRow newCol then
             (if at (flags g) newRow newCol
              then (flagCount + 1, unopenedCells)
              else if \<not> at (mask g) newRow newCol
              then (flagCount, unopenedCells @ [(newRow, newCol)])
              else (flagCount, unopenedCells))
           else (flagCount, unopenedCells)) ds (k, acc)
   = (k + int (length (filter (\<lambda>(r, c). at (flags g) r c)
            (filter (\<lambda>(r, c). isValidPosition r c) (map (\<lambda>(dx, dy). (row + dx, col + dy)) ds)))),
      acc @ filter (\<lambda>(r, c). \<not> at (flags g) r c \<and> \<not> at (mask g) r c)
            (filter (\<lambda>(r, c). isValidPosition r c) (map (\<lambda>(dx, dy). (row + dx, col + dy)) ds)))"
proof (induction ds arbitrary: k acc)
  case Nil
  then show ?case by simp
next
  case (Cons d ds)
  obtain dx dy where d: "d = (dx, dy)" by (cases d)
  show ?case
    using Cons.IH unfolding Let_def d
    by (cases "isValidPosition (row + dx) (col + dy)"; cases "at (flags g) (row + dx) (col + dy)";
        cases "at (mask g) (row + dx) (col + dy)")
       simp_all
qed

lemma scanChord_eq:
  "scanChord g row col =
     (int (length (filter (\<lambda>(r, c). at (flags g) r c) (dirCells row col))),
      filter (\<lambda>(r, c). \<not> at (flags g) r c \<and> \<not> at (mask g) r c) (dirCells row col))"
  unfolding scanChord_def dirCells_def by (simp add: scanChord_fold)

lemma scanAuto_fold:
  "fold (\<lambda>(dx, dy) (flaggedCount, hiddenCount, hiddenPositions).
           let newRow = row + dx; newCol = col + dy in
           if isValidPosition newRow newCol then
             (if at (flags g) newRow newCol
              then (flaggedCount + 1, hiddenCount, hiddenPositions)
              else if \<not> at (mask g) newRow newCol
              then (flaggedCount, hiddenCount + 1, hiddenPositions @ [(newRow, newCol)])
              else (flaggedCount, hiddenCount, hiddenPositions))
           else (flaggedCount, hiddenCount, hiddenPositions)) ds (k, n, acc)
   = (k + int (length (filter (\<lambda>(r, c). at (flags g) r c)
            (filter (\<lambda>(r, c). isValidPosition r c) (map (\<lambda>(dx, dy). (row + dx, col + dy)) ds)))),
      n + int (length (filter (\<lambda>(r, c). \<not> at (flags g) r c \<and> \<not> at (mask g) r c)
            (filter (\<lambda>(r, c). isValidPosition r c) (map (\<lambda>(dx, dy). (row + dx, col + dy)) ds)))),
      acc @ filter (\<lambda>(r, c). \<not> at (flags g) r c \<and> \<not> at (mask g) r c)
            (filter (\<lambda>(r, c). isValidPosition r c) (map (\<lambda>(dx, dy). (row + dx, col + dy)) ds)))"
proof (induction ds arbitrary: k n acc)
  case Nil
  then show ?case by simp
next
  case (Cons d ds)
  obtain dx dy where d: "d = (dx, dy)" by (cases d)
  show ?case
    using Cons.IH unfolding Let_def d
    by (cases "isValidPosition (row + dx) (col + dy)"; cases "at (flags g) (row + dx) (col + dy)";
        cases "at (mask g) (row + dx) (col + dy)")
       simp_all
qed

lemma scanAuto_eq:
  "scanAuto g row col =
     (int (length (filter (\<lambda>(r, c). at (flags g) r c) (dirCells row col))),
      int (length (filter (\<lambda>(r, c). \<not> at (flags g) r c \<and> \<not> at (mask g) r c) (dirCells row col))),
      filter (\<lambda>(r, c). \<not> at (flags g) r c \<and> \<not> at (mask g) r c) (dirCells row col))"
  unfolding scanAuto_def dirCells_def by (simp add: scanAuto_fold)

lemma scan_flagged: "fst (scanChord g row col) = int (length (flaggedNeighbours g row col))"
  by (simp add: scanChord_eq flaggedNeighbours_def dirCells_filter_length)

lemma scan_hidden_set: "set (snd (scanChord g row col)) = set (hiddenNeighbours g row col)"
  by (simp add: scanChord_eq hiddenNeighbours_def set_dirCells)

lemma scan_hidden_length:
  "length (snd (scanChord g row col)) = length (hiddenNeighbours g row col)"
  by (simp add: scanChord_eq hiddenNeighbours_def dirCells_filter_length)

section \<open>Flagging, showing the mines, counting the flags\<close>

lemma flagAll_result:
  "wf_grid f \<Longrightarrow> (\<forall>(r, c) \<in> set ps. isValidPosition r c) \<Longrightarrow>
   wf_grid (flagAll ps f) \<and>
   (\<forall>r c. isValidPosition r c \<longrightarrow> at (flagAll ps f) r c = ((r, c) \<in> set ps \<or> at f r c))"
proof (induction ps arbitrary: f)
  case Nil
  then show ?case by (simp add: flagAll_def)
next
  case (Cons p ps)
  obtain pr pc where p: "p = (pr, pc)" by (cases p)
  from Cons.prems have vp: "isValidPosition pr pc"
    and vs: "\<forall>(r, c) \<in> set ps. isValidPosition r c"
    by (auto simp: p)
  have wf1: "wf_grid (setAt f pr pc True)" using Cons.prems(1) by (rule wf_grid_setAt)
  have step: "flagAll ((pr, pc) # ps) f = flagAll ps (setAt f pr pc True)"
    by (simp add: flagAll_def)
  show ?case
    using Cons.IH [OF wf1 vs] Cons.prems(1) vp
    by (auto simp: step p at_setAt)
qed

lemma showMines_fold:
  "showMines b m = fold (\<lambda>(r, c) m'. if at b r c = -1 then setAt m' r c True else m') allCells m"
  by (simp add: showMines_def allCells_def fold_over_concat fold_map comp_def)

lemma showMines_aux:
  "wf_grid m \<Longrightarrow> (\<forall>(r, c) \<in> set ps. isValidPosition r c) \<Longrightarrow>
   wf_grid (fold (\<lambda>(r, c) m'. if at b r c = -1 then setAt m' r c True else m') ps m) \<and>
   (\<forall>r c. isValidPosition r c \<longrightarrow>
      at (fold (\<lambda>(r, c) m'. if at b r c = -1 then setAt m' r c True else m') ps m) r c
        = ((r, c) \<in> set ps \<and> at b r c = -1 \<or> at m r c))"
proof (induction ps arbitrary: m)
  case Nil
  then show ?case by simp
next
  case (Cons p ps)
  obtain pr pc where p: "p = (pr, pc)" by (cases p)
  from Cons.prems have vp: "isValidPosition pr pc"
    and vs: "\<forall>(r, c) \<in> set ps. isValidPosition r c"
    by (auto simp: p)
  let ?m1 = "if at b pr pc = -1 then setAt m pr pc True else m"
  have wf1: "wf_grid ?m1" using Cons.prems(1) by (simp add: wf_grid_setAt)
  show ?case
    using Cons.IH [OF wf1 vs] Cons.prems(1) vp
    by (auto simp: p at_setAt)
qed

lemma showMines_result:
  assumes "wf_grid m"
  shows "wf_grid (showMines b m)"
    and "isValidPosition r c \<Longrightarrow> at (showMines b m) r c = (at b r c = -1 \<or> at m r c)"
proof -
  have v: "\<forall>(r, c) \<in> set allCells. isValidPosition r c" by (simp add: set_allCells)
  note a = showMines_aux [OF assms v, of b, folded showMines_fold]
  show "wf_grid (showMines b m)" using a by simp
  show "isValidPosition r c \<Longrightarrow> at (showMines b m) r c = (at b r c = -1 \<or> at m r c)"
    using a by (simp add: set_allCells)
qed

lemma countFlags_fold:
  "countFlags g =
     fold (\<lambda>(r, c) (correctFlags, totalFlags).
             if at (flags g) r c
             then (if at (board g) r c = -1 then correctFlags + 1 else correctFlags,
                   totalFlags + 1)
             else (correctFlags, totalFlags)) allCells (0, 0)"
  by (simp add: countFlags_def allCells_def fold_over_concat fold_map comp_def)

lemma countFlags_aux:
  "fold (\<lambda>(r, c) (correctFlags, totalFlags).
           if at (flags g) r c
           then (if at (board g) r c = -1 then correctFlags + 1 else correctFlags,
                 totalFlags + 1)
           else (correctFlags, totalFlags)) ps (k, n)
   = (k + int (length (filter (\<lambda>(r, c). at (flags g) r c \<and> at (board g) r c = -1) ps)),
      n + int (length (filter (\<lambda>(r, c). at (flags g) r c) ps)))"
proof (induction ps arbitrary: k n)
  case Nil
  then show ?case by simp
next
  case (Cons p ps)
  obtain r c where p: "p = (r, c)" by (cases p)
  show ?case
    using Cons.IH unfolding p
    by (cases "at (flags g) r c"; cases "at (board g) r c = -1") simp_all
qed

lemma countFlags_eq: "countFlags g = (correctlyFlagged g, totalFlagged g)"
  by (simp add: countFlags_fold countFlags_aux correctlyFlagged_def totalFlagged_def)

section \<open>Revealing a list of cells\<close>

lemma reveal_opens:
  assumes "wf_grid (mask g)" "isValidPosition r c" "\<not> at (flags g) r c" "0 < m"
  shows "at (mask (fst (revealEmpty g r c m))) r c"
proof (cases "at (mask g) r c")
  case True
  then show ?thesis by (simp add: revealEmpty.simps)
next
  case False
  let ?g' = "g\<lparr>mask := setAt (mask g) r c True\<rparr>"
  have wf': "wf_grid (mask ?g')" using assms(1) by (simp add: wf_grid_setAt)
  have here: "at (mask ?g') r c" using assms(1,2) by (simp add: at_setAt)
  show ?thesis
  proof (cases "at (board g) r c = 0")
    case True
    have "revealStep ?g' (m - 1) (revealDirs ?g' r c DIRECTIONS (m - 1))"
      using wf' by (rule reveal_step(2))
    then have "maskLe (mask ?g') (mask (fst (revealDirs ?g' r c DIRECTIONS (m - 1))))"
      by (simp add: revealStep_def split: prod.splits)
    with here assms(2) have "at (mask (fst (revealDirs ?g' r c DIRECTIONS (m - 1)))) r c"
      by (simp add: maskLe_iff)
    with False True assms show ?thesis by (simp add: revealEmpty.simps)
  next
    case nz: False
    with False here assms show ?thesis by (simp add: revealEmpty.simps)
  qed
qed

lemma revealAll_result:
  "wf_grid (mask g) \<Longrightarrow> (\<forall>(r, c) \<in> set ps. isValidPosition r c \<and> \<not> at (flags g) r c) \<Longrightarrow>
   (revealAll ps g)\<lparr>mask := mask g\<rparr> = g \<and> wf_grid (mask (revealAll ps g)) \<and>
   maskLe (mask g) (mask (revealAll ps g)) \<and>
   flagsKept (flags g) (mask g) (mask (revealAll ps g)) \<and>
   (\<forall>(r, c) \<in> set ps. at (mask (revealAll ps g)) r c)"
proof (induction ps arbitrary: g)
  case Nil
  then show ?case by (simp add: revealAll_def maskLe_refl flagsKept_iff)
next
  case (Cons p ps)
  obtain pr pc where p: "p = (pr, pc)" by (cases p)
  obtain g1 m1 where e: "revealEmpty g pr pc MAX_REVEALS = (g1, m1)"
    by (cases "revealEmpty g pr pc MAX_REVEALS")
  note r1 = revealEmpty_result [OF Cons.prems(1) e]
  note f1 = frame_fields [OF r1(1)]
  from Cons.prems(2) have vp: "isValidPosition pr pc" "\<not> at (flags g) pr pc"
    and vs: "\<forall>(r, c) \<in> set ps. isValidPosition r c \<and> \<not> at (flags g1) r c"
    by (auto simp: p f1)
  have open1: "at (mask g1) pr pc"
    using reveal_opens [OF Cons.prems(1) vp, of MAX_REVEALS] e by (simp add: MAX_REVEALS_def)
  have step: "revealAll ((pr, pc) # ps) g = revealAll ps g1"
    by (simp add: revealAll_def e)
  note ih = Cons.IH [OF r1(2) vs]
  let ?g' = "revealAll ps g1"
  have "?g'\<lparr>mask := mask g\<rparr> = (?g'\<lparr>mask := mask g1\<rparr>)\<lparr>mask := mask g\<rparr>" by simp
  also have "\<dots> = g" using ih r1(1) by simp
  finally have frame: "?g'\<lparr>mask := mask g\<rparr> = g" .
  have le: "maskLe (mask g) (mask ?g')" using r1(3) ih by (blast intro: maskLe_trans)
  have fk: "flagsKept (flags g) (mask g) (mask ?g')"
    using r1(8) ih by (simp add: flagsKept_iff f1)
  have "at (mask ?g') pr pc" using open1 ih vp(1) by (simp add: maskLe_iff)
  then show ?case
    using frame le fk ih by (simp add: p step)
qed

section \<open>The branches of the handler\<close>

lemma flagsHidden_iff:
  "flagsHidden g \<longleftrightarrow> (\<forall>r c. isValidPosition r c \<longrightarrow> at (flags g) r c \<longrightarrow> \<not> at (mask g) r c)"
  by (auto simp: flagsHidden_def list_all_iff set_allCells)

lemma winCheck_eq:
  "winCheck now g =
     (if \<not> gameOver g \<and> winning g
      then g\<lparr>gameOver := True, won := True, endTime := Some now\<rparr> else g)"
  by (simp add: winCheck_def countFlags_eq winning_def)

lemma mineHit_result:
  assumes "wf_grid (mask g)"
  shows "wf_grid (mask (mineHit now g))" "maskLe (mask g) (mask (mineHit now g))"
    and "isValidPosition r c \<Longrightarrow> at (board g) r c = -1 \<Longrightarrow> at (mask (mineHit now g)) r c"
    and "board (mineHit now g) = board g" "flags (mineHit now g) = flags g"
    and "gameOver (mineHit now g)" "won (mineHit now g) = won g"
    and "moves (mineHit now g) = moves g" "startTime (mineHit now g) = startTime g"
    and "endTime (mineHit now g) = Some now"
  using showMines_result(1) [OF assms, where b = "board g"]
    showMines_result(2) [OF assms, where b = "board g"]
  by (simp_all add: mineHit_def maskLe_iff)

lemma revealEmpty_invalid:
  "\<not> isValidPosition row col \<Longrightarrow> revealEmpty g row col m = (g, m)"
  by (simp add: revealEmpty.simps)

lemma revealEmpty_revealed:
  "at (mask g) row col \<Longrightarrow> revealEmpty g row col m = (g, m)"
  by (simp add: revealEmpty.simps)

text \<open>The dispatch of the handler on a game of the right shape, by the clicked coordinates.\<close>

lemma cellMove_row_out:
  assumes "wf_game g" "\<not> (0 \<le> row \<and> row < ROWS)"
  shows "cellMove now g row col = Inl TypeError"
  using assms by (simp add: cellMove_def wf_game_def rd_row_out)

lemma cellMove_col_out:
  assumes "wf_game g" "0 \<le> row" "row < ROWS" "\<not> (0 \<le> col \<and> col < COLS)"
  shows "cellMove now g row col = Inr (g\<lparr>moves := moves g + 1\<rparr>)"
proof -
  have "\<not> isValidPosition row col" using assms(4) by (auto simp: isValidPosition_def)
  then show ?thesis
    using assms
    by (simp add: cellMove_def wf_game_def rd_col_out truthy_def revealEmpty_invalid)
qed

lemma cellMove_chord:
  assumes "wf_game g" "isValidPosition row col" "at (mask g) row col" "at (board g) row col > 0"
  shows "cellMove now g row col = chord now g row col (at (board g) row col)"
  using assms by (simp add: cellMove_def wf_game_def rd_valid truthy_def gt0_def)

lemma cellMove_click:
  assumes "wf_game g" "isValidPosition row col"
    "\<not> (at (mask g) row col \<and> at (board g) row col > 0)"
  shows "cellMove now g row col =
     (if at (flags g) row col then Inr g
      else if at (board g) row col = -1 then Inr (mineHit now (g\<lparr>moves := moves g + 1\<rparr>))
      else Inr (fst (revealEmpty (g\<lparr>moves := moves g + 1\<rparr>) row col MAX_REVEALS)))"
  using assms by (auto simp: cellMove_def wf_game_def rd_valid truthy_def gt0_def)

lemma autoFlag_chord:
  assumes "wf_game g" "isValidPosition row col" "at (mask g) row col" "at (board g) row col > 0"
  shows "autoFlag g row col =
     (if hiddenNeighbours g row col \<noteq> []
         \<and> at (board g) row col - int (length (flaggedNeighbours g row col))
             = int (length (hiddenNeighbours g row col))
      then Inr (True, g\<lparr>flags := flagAll (snd (scanChord g row col)) (flags g)\<rparr>)
      else Inr (False, g))"
proof -
  have s: "scanAuto g row col
      = (int (length (flaggedNeighbours g row col)), int (length (hiddenNeighbours g row col)),
         snd (scanChord g row col))"
    by (simp add: scanAuto_eq scanChord_eq flaggedNeighbours_def hiddenNeighbours_def
        dirCells_filter_length)
  show ?thesis
    using assms
    by (simp add: autoFlag_def wf_game_def rd_valid truthy_def le0_def s)
qed

lemma chord_eq:
  assumes "wf_game g" "isValidPosition row col" "at (mask g) row col" "at (board g) row col > 0"
  shows "chord now g row col (at (board g) row col) =
     (if int (length (flaggedNeighbours g row col)) = at (board g) row col then
        (if list_ex (\<lambda>(r, c). at (board g) r c = -1) (hiddenNeighbours g row col)
         then Inr (mineHit now g)
         else if hiddenNeighbours g row col \<noteq> []
         then Inr ((revealAll (snd (scanChord g row col)) g)
                     \<lparr>moves := moves (revealAll (snd (scanChord g row col)) g) + 1\<rparr>)
         else Inr g)
      else if hiddenNeighbours g row col \<noteq> []
         \<and> at (board g) row col - int (length (flaggedNeighbours g row col))
             = int (length (hiddenNeighbours g row col))
      then Inr (g\<lparr>flags := flagAll (snd (scanChord g row col)) (flags g),
                  moves := moves g + 1\<rparr>)
      else Inr g)"
proof -
  obtain fc us where sc: "scanChord g row col = (fc, us)" by (cases "scanChord g row col")
  have fc: "fc = int (length (flaggedNeighbours g row col))"
    using scan_flagged [of g row col] sc by simp
  have us_set: "set us = set (hiddenNeighbours g row col)"
    using scan_hidden_set [of g row col] sc by simp
  have us_len: "length us = length (hiddenNeighbours g row col)"
    using scan_hidden_length [of g row col] sc by simp
  have ex: "list_ex (\<lambda>(r, c). at (board g) r c = -1) us
      = list_ex (\<lambda>(r, c). at (board g) r c = -1) (hiddenNeighbours g row col)"
    by (simp add: list_ex_iff us_set)
  have emp: "(us = []) = (hiddenNeighbours g row col = [])"
    using us_len by (metis length_0_conv)
  have nil: "us = [] \<Longrightarrow> revealAll us g = g" by (simp add: revealAll_def)
  show ?thesis
    unfolding chord_def sc autoFlag_chord [OF assms]
    using fc ex emp nil by (auto simp: sc Let_def)
qed

section \<open>What a move keeps\<close>

lemma wf_game_moves [simp]: "wf_game (g\<lparr>moves := n\<rparr>) = wf_game g"
  by (simp add: wf_game_def)

lemma flagsHidden_moves [simp]: "flagsHidden (g\<lparr>moves := n\<rparr>) = flagsHidden g"
  by (simp add: flagsHidden_def)

lemma scan_cells:
  assumes "(r, c) \<in> set (snd (scanChord g row col))"
  shows "isValidPosition r c" "\<not> at (flags g) r c" "\<not> at (mask g) r c"
  using assms dirCells_valid [of r c row col] by (auto simp: scanChord_eq)

lemma reveal_keeps:
  assumes "wf_game g" "revealEmpty g row col m = (g1, m1)"
  shows "wf_game g1" "board g1 = board g" "flags g1 = flags g" "maskLe (mask g) (mask g1)"
    "gameOver g1 = gameOver g" "won g1 = won g" "endTime g1 = endTime g"
    "moves g1 = moves g" "startTime g1 = startTime g" "flagsHidden g \<Longrightarrow> flagsHidden g1"
proof -
  from assms(1) have wfm: "wf_grid (mask g)" by (simp add: wf_game_def)
  note r = revealEmpty_result [OF wfm assms(2)]
  note f = frame_fields [OF r(1)]
  show "board g1 = board g" "flags g1 = flags g" "gameOver g1 = gameOver g" "won g1 = won g"
    "endTime g1 = endTime g" "moves g1 = moves g" "startTime g1 = startTime g"
    by (rule f)+
  show "wf_game g1" using assms(1) r(2) f by (simp add: wf_game_def)
  show "maskLe (mask g) (mask g1)" by (rule r(3))
  show "flagsHidden g \<Longrightarrow> flagsHidden g1"
    using r(8) f(2) by (simp add: flagsHidden_iff flagsKept_iff)
qed

lemma revealAll_keeps:
  assumes "wf_game g" "ps = snd (scanChord g row col)" "g1 = revealAll ps g"
  shows "wf_game g1" "board g1 = board g" "flags g1 = flags g" "maskLe (mask g) (mask g1)"
    "gameOver g1 = gameOver g" "won g1 = won g" "endTime g1 = endTime g"
    "moves g1 = moves g" "startTime g1 = startTime g" "flagsHidden g \<Longrightarrow> flagsHidden g1"
    "\<And>r c. (r, c) \<in> set ps \<Longrightarrow> at (mask g1) r c"
proof -
  from assms(1) have wfm: "wf_grid (mask g)" by (simp add: wf_game_def)
  have ok: "\<forall>(r, c) \<in> set ps. isValidPosition r c \<and> \<not> at (flags g) r c"
    using scan_cells [of _ _ g row col] assms(2) by auto
  note r = revealAll_result [OF wfm ok, folded assms(3)]
  from r have fr: "g1\<lparr>mask := mask g\<rparr> = g" by simp
  note f = frame_fields [OF fr]
  show "board g1 = board g" "flags g1 = flags g" "gameOver g1 = gameOver g" "won g1 = won g"
    "endTime g1 = endTime g" "moves g1 = moves g" "startTime g1 = startTime g"
    by (rule f)+
  show "wf_game g1" using assms(1) r f by (simp add: wf_game_def)
  show "maskLe (mask g) (mask g1)" using r by simp
  show "flagsHidden g \<Longrightarrow> flagsHidden g1"
    using r f(2) by (simp add: flagsHidden_iff flagsKept_iff)
  show "\<And>r c. (r, c) \<in> set ps \<Longrightarrow> at (mask g1) r c" using r by auto
qed

lemma autoFlag_keeps:
  assumes "wf_game g" "ps = snd (scanChord g row col)" "g1 = g\<lparr>flags := flagAll ps (flags g)\<rparr>"
  shows "wf_game g1" "flagsHidden g \<Longrightarrow> flagsHidden g1"
    "\<And>r c. isValidPosition r c \<Longrightarrow> at (flags g1) r c = ((r, c) \<in> set ps \<or> at (flags g) r c)"
proof -
  from assms(1) have wff: "wf_grid (flags g)" by (simp add: wf_game_def)
  have ok: "\<forall>(r, c) \<in> set ps. isValidPosition r c"
    using scan_cells(1) [of _ _ g row col] assms(2) by auto
  note r = flagAll_result [OF wff ok]
  show "wf_game g1" using assms(1,3) r by (simp add: wf_game_def)
  show fl: "\<And>r c. isValidPosition r c \<Longrightarrow> at (flags g1) r c = ((r, c) \<in> set ps \<or> at (flags g) r c)"
    using r assms(3) by simp
  show "flagsHidden g \<Longrightarrow> flagsHidden g1"
    unfolding flagsHidden_iff
    using fl scan_cells(3) [of _ _ g row col] assms(2,3) by auto
qed

lemma cellMove_keeps:
  assumes "wf_game g" "cellMove now g row col = Inr g1"
  shows "wf_game g1" "board g1 = board g" "maskLe (mask g) (mask g1)"
    "startTime g1 = startTime g"
    "\<not> gameOver g \<Longrightarrow> \<not> gameOver g1 \<Longrightarrow>
       won g1 = won g \<and> endTime g1 = endTime g \<and> (flagsHidden g \<longrightarrow> flagsHidden g1)"
proof -
  have wfm: "wf_grid (mask g)" using assms(1) by (simp add: wf_game_def)
  have row: "0 \<le> row \<and> row < ROWS"
    using assms cellMove_row_out [of g row now col] by auto
  have all: "wf_game g1 \<and> board g1 = board g \<and> maskLe (mask g) (mask g1) \<and>
      startTime g1 = startTime g \<and>
      (\<not> gameOver g \<longrightarrow> \<not> gameOver g1 \<longrightarrow>
         won g1 = won g \<and> endTime g1 = endTime g \<and> (flagsHidden g \<longrightarrow> flagsHidden g1))"
  proof (cases "0 \<le> col \<and> col < COLS")
    case False
    with assms row have "g1 = g\<lparr>moves := moves g + 1\<rparr>"
      by (simp add: cellMove_col_out)
    then show ?thesis using assms(1) by (simp add: maskLe_refl)
  next
    case True
    with row have v: "isValidPosition row col" by (simp add: isValidPosition_def)
    show ?thesis
    proof (cases "at (mask g) row col \<and> at (board g) row col > 0")
      case chordc: True
      let ?ps = "snd (scanChord g row col)"
      note ra = revealAll_keeps [OF assms(1) refl refl, of row col]
      note af = autoFlag_keeps [OF assms(1) refl refl, of row col]
      note mh = mineHit_result [OF wfm, of now]
      from assms(2) chordc have "chord now g row col (at (board g) row col) = Inr g1"
        by (simp add: cellMove_chord [OF assms(1) v])
      then consider "g1 = mineHit now g" | "g1 = g"
        | "g1 = (revealAll ?ps g)\<lparr>moves := moves (revealAll ?ps g) + 1\<rparr>"
        | "g1 = g\<lparr>flags := flagAll ?ps (flags g), moves := moves g + 1\<rparr>"
        using chordc by (auto simp: chord_eq [OF assms(1) v] split: if_splits)
      then show ?thesis
      proof cases
        case 1
        then show ?thesis using mh assms(1) by (simp add: wf_game_def)
      next
        case 2
        then show ?thesis using assms(1) by (simp add: maskLe_refl)
      next
        case 3
        then show ?thesis using ra by simp
      next
        case 4
        then have "g1 = (g\<lparr>flags := flagAll ?ps (flags g)\<rparr>)\<lparr>moves := moves g + 1\<rparr>"
          by simp
        then show ?thesis using af(1,2) by (simp add: maskLe_refl)
      qed
    next
      case False
      let ?g' = "g\<lparr>moves := moves g + 1\<rparr>"
      have wf': "wf_game ?g'" "wf_grid (mask ?g')" using assms(1) wfm by simp_all
      note mh = mineHit_result [OF wf'(2), of now]
      note rk = reveal_keeps [OF wf'(1) surjective_pairing, of row col MAX_REVEALS]
      from assms(2) False consider "g1 = g" | "g1 = mineHit now ?g'"
        | "g1 = fst (revealEmpty ?g' row col MAX_REVEALS)"
        by (auto simp: cellMove_click [OF assms(1) v] split: if_splits)
      then show ?thesis
      proof cases
        case 1
        then show ?thesis using assms(1) by (simp add: maskLe_refl)
      next
        case 2
        then show ?thesis using mh assms(1) by (simp add: wf_game_def)
      next
        case 3
        then show ?thesis using rk by simp
      qed
    qed
  qed
  from all show "wf_game g1" "board g1 = board g" "maskLe (mask g) (mask g1)"
    "startTime g1 = startTime g"
    "\<not> gameOver g \<Longrightarrow> \<not> gameOver g1 \<Longrightarrow>
       won g1 = won g \<and> endTime g1 = endTime g \<and> (flagsHidden g \<longrightarrow> flagsHidden g1)"
    by simp_all
qed

section \<open>The invariant of reachable games\<close>

lemma winCheck_fields:
  "board (winCheck now g) = board g" "mask (winCheck now g) = mask g"
  "flags (winCheck now g) = flags g" "moves (winCheck now g) = moves g"
  "startTime (winCheck now g) = startTime g"
  by (simp_all add: winCheck_eq)

lemma handleCell_Some:
  "handleCell now g row col = Inr (Some g') \<longleftrightarrow>
     \<not> gameOver g \<and> (\<exists>g1. cellMove now g row col = Inr g1 \<and> g' = winCheck now g1)"
  by (auto simp: handleCell_def split: sum.splits)

lemma winning_cong:
  "board g' = board g \<Longrightarrow> flags g' = flags g \<Longrightarrow> winning g' = winning g"
  by (simp add: winning_def correctlyFlagged_def totalFlagged_def)

lemma gameInv_step:
  assumes "gameInv g" "handleCell now g row col = Inr (Some g')"
  shows "gameInv g'"
proof -
  from assms(2) obtain g1 where go: "\<not> gameOver g"
    and cm: "cellMove now g row col = Inr g1" and g': "g' = winCheck now g1"
    by (auto simp: handleCell_Some)
  from assms(1) go have wf: "wf_game g" and inv: "boardInvariant (board g)"
    "mineCount (board g) = MINES" "\<not> won g" "endTime g = None" "flagsHidden g"
    by (simp_all add: gameInv_def)
  note k = cellMove_keeps [OF wf cm]
  have "wf_game g'" using k(1) by (simp add: wf_game_def g' winCheck_fields)
  moreover have "board g' = board g" using k(2) by (simp add: g' winCheck_fields)
  moreover have "\<not> won g' \<and> endTime g' = None \<and> \<not> winning g' \<and> flagsHidden g'"
    if ngo: "\<not> gameOver g'"
  proof -
    from ngo have n1: "\<not> gameOver g1" and nw: "\<not> winning g1" and eq: "g' = g1"
      by (auto simp: g' winCheck_eq split: if_splits)
    from k(5) [OF go n1] inv show ?thesis by (simp add: eq nw)
  qed
  ultimately show ?thesis using inv(1,2) by (simp add: gameInv_def)
qed

lemma totalFlagged_new: "flags g = newGrid False \<Longrightarrow> totalFlagged g = 0"
  by (auto simp: totalFlagged_def filter_empty_conv set_allCells at_newGrid)

lemma gameInv_new:
  assumes "drawsOk rnd" "createNewGame rnd now = Some g"
  shows "gameInv g"
proof -
  note s = createNewGame_shape [OF assms]
  have "boardInvariant (board g)"
    using s(3) by (auto simp: boardInvariant_def list_all_iff set_allCells)
  moreover have "\<not> winning g"
    using totalFlagged_new [OF s(5)] by (simp add: winning_def MINES_def)
  moreover have "flagsHidden g"
    using s(5) by (simp add: flagsHidden_iff at_newGrid)
  ultimately show ?thesis using s by (simp add: gameInv_def)
qed

lemma reachable_inv: "reachable g \<Longrightarrow> gameInv g"
  by (induction rule: reachable.induct) (auto intro: gameInv_new gameInv_step)

section \<open>Sessions\<close>

lemma reachable_play: "reachable g \<Longrightarrow> play g cs = Some g' \<Longrightarrow> reachable g'"
proof (induction cs arbitrary: g)
  case Nil
  then show ?case by simp
next
  case (Cons c cs)
  obtain now row col where c: "c = (now, row, col)" by (cases c)
  from Cons.prems(2) obtain g1 where h: "handleCell now g row col = Inr (Some g1)"
    and p: "play g1 cs = Some g'"
    by (auto simp: c split: sum.splits option.splits)
  from Cons.prems(1) h have "reachable g1" by (rule reachable.step)
  then show ?case using p by (rule Cons.IH)
qed

lemma reachable_game0: "reachable game0"
proof -
  have "drawsOk exampleDraws" by code_simp
  moreover have "createNewGame exampleDraws 100 = Some game0" by code_simp
  ultimately show ?thesis by (rule reachable.new)
qed

section \<open>The chord and the click on a revealed cell\<close>

lemma chord_move:
  assumes "gameInv g" "\<not> gameOver g" "isValidPosition row col" "at (mask g) row col"
    "at (board g) row col > 0"
    "int (length (flaggedNeighbours g row col)) = at (board g) row col"
  shows "\<exists>g'. handleCell now g row col = Inr (Some g') \<and>
     (if list_ex (\<lambda>(r, c). at (board g) r c = -1) (hiddenNeighbours g row col)
      then gameOver g' \<and> \<not> won g'
           \<and> (\<forall>r c. isValidPosition r c \<longrightarrow> at (board g') r c = -1 \<longrightarrow> at (mask g') r c)
      else (\<forall>(r, c) \<in> set (hiddenNeighbours g row col). at (mask g') r c) \<and> \<not> gameOver g')"
proof -
  from assms(1,2) have wf: "wf_game g" and nw: "\<not> won g" "\<not> winning g"
    by (simp_all add: gameInv_def)
  then have wfm: "wf_grid (mask g)" by (simp add: wf_game_def)
  let ?ps = "snd (scanChord g row col)"
  note cm = cellMove_chord [OF wf assms(3,4,5), of now]
  note ce = chord_eq [OF wf assms(3,4,5), of now]
  show ?thesis
  proof (cases "list_ex (\<lambda>(r, c). at (board g) r c = -1) (hiddenNeighbours g row col)")
    case True
    note mh = mineHit_result [OF wfm, where now = now]
    from True assms(6) have "cellMove now g row col = Inr (mineHit now g)"
      by (simp add: cm ce)
    then have "handleCell now g row col = Inr (Some (winCheck now (mineHit now g)))"
      using assms(2) by (simp add: handleCell_def)
    moreover have "winCheck now (mineHit now g) = mineHit now g"
      using mh(6) by (simp add: winCheck_eq)
    ultimately have hc: "handleCell now g row col = Inr (Some (mineHit now g))" by simp
    have shown: "\<forall>r c. isValidPosition r c \<longrightarrow> at (board (mineHit now g)) r c = -1
        \<longrightarrow> at (mask (mineHit now g)) r c"
      using mh(3) by (simp add: mh(4))
    have lost: "gameOver (mineHit now g)" "\<not> won (mineHit now g)"
      using mh(6) nw(1) by (simp_all add: mh(7))
    from lost shown have concl: "gameOver (mineHit now g) \<and> \<not> won (mineHit now g)
        \<and> (\<forall>r c. isValidPosition r c \<longrightarrow> at (board (mineHit now g)) r c = -1
              \<longrightarrow> at (mask (mineHit now g)) r c)"
      by (intro conjI)
    show ?thesis
      unfolding if_P [OF True]
      by (rule exI [of _ "mineHit now g"]) (rule conjI [OF hc concl])
  next
    case False
    let ?g1 = "revealAll ?ps g"
    note ra = revealAll_keeps [OF wf refl refl, where row = row and col = col]
    have w1: "\<not> winning ?g1" using nw(2) winning_cong [OF ra(2,3)] by simp
    have "\<forall>(r, c) \<in> set ?ps. at (mask ?g1) r c" using ra(11) by blast
    then have opened: "\<forall>(r, c) \<in> set (hiddenNeighbours g row col). at (mask ?g1) r c"
      by (simp only: scan_hidden_set)
    show ?thesis
    proof (cases "hiddenNeighbours g row col = []")
      case True
      with False assms(6) have "cellMove now g row col = Inr g" by (simp add: cm ce)
      then have hc: "handleCell now g row col = Inr (Some g)"
        using assms(2) nw(2) by (simp add: handleCell_def winCheck_eq)
      show ?thesis
        by (rule exI [of _ g]) (simp add: hc False True assms(2))
    next
      case ne: False
      let ?g2 = "?g1\<lparr>moves := moves ?g1 + 1\<rparr>"
      from False ne assms(6) have "cellMove now g row col = Inr ?g2" by (simp add: cm ce)
      moreover have "\<not> winning ?g2" using w1 by (simp add: winning_cong [of ?g2 ?g1])
      then have "winCheck now ?g2 = ?g2" by (simp add: winCheck_eq)
      ultimately have hc: "handleCell now g row col = Inr (Some ?g2)"
        using assms(2) by (simp add: handleCell_def)
      have "\<not> gameOver ?g2" using ra(5) assms(2) by simp
      moreover have "\<forall>(r, c) \<in> set (hiddenNeighbours g row col). at (mask ?g2) r c"
        using opened by simp
      ultimately show ?thesis
        by (intro exI [of _ ?g2]) (simp only: hc False if_False simp_thms)
    qed
  qed
qed

lemma autoflag_move:
  assumes "wf_game g" "\<not> gameOver g" "isValidPosition row col" "at (mask g) row col"
    "at (board g) row col > 0"
  shows "\<exists>g'. handleCell now g row col = Inr (Some g') \<and>
     (if int (length (flaggedNeighbours g row col)) \<noteq> at (board g) row col
      then
        (hiddenNeighbours g row col \<noteq> []
         \<and> int (length (hiddenNeighbours g row col))
             = at (board g) row col - int (length (flaggedNeighbours g row col))
         \<longrightarrow> (\<forall>r c. isValidPosition r c \<longrightarrow>
                at (flags g') r c = ((r, c) \<in> set (hiddenNeighbours g row col) \<or> at (flags g) r c))
             \<and> moves g' = moves g + 1 \<and> mask g' = mask g)
      else flags g' = flags g)"
proof -
  let ?ps = "snd (scanChord g row col)"
  note cm = cellMove_chord [OF assms(1,3,4,5), of now]
  note ce = chord_eq [OF assms(1,3,4,5), of now]
  from assms(1) have wfm: "wf_grid (mask g)" by (simp add: wf_game_def)
  have "\<exists>g1. cellMove now g row col = Inr g1"
    unfolding cm ce by simp
  then obtain g1 where c1: "cellMove now g row col = Inr g1" ..
  then have h: "handleCell now g row col = Inr (Some (winCheck now g1))"
    using assms(2) by (simp add: handleCell_def)
  show ?thesis
  proof (cases "int (length (flaggedNeighbours g row col)) \<noteq> at (board g) row col")
    case True
    have "(\<forall>r c. isValidPosition r c \<longrightarrow>
              at (flags g1) r c = ((r, c) \<in> set (hiddenNeighbours g row col) \<or> at (flags g) r c))
          \<and> moves g1 = moves g + 1 \<and> mask g1 = mask g"
      if c: "hiddenNeighbours g row col \<noteq> []"
        "int (length (hiddenNeighbours g row col))
           = at (board g) row col - int (length (flaggedNeighbours g row col))"
    proof -
      from True c c1 have g1: "g1 = g\<lparr>flags := flagAll ?ps (flags g), moves := moves g + 1\<rparr>"
        by (simp add: cm ce)
      note af = autoFlag_keeps [OF assms(1) refl refl, where row = row and col = col]
      show ?thesis using af(3) by (simp add: g1 scan_hidden_set)
    qed
    then have "hiddenNeighbours g row col \<noteq> []
         \<and> int (length (hiddenNeighbours g row col))
             = at (board g) row col - int (length (flaggedNeighbours g row col))
         \<longrightarrow> (\<forall>r c. isValidPosition r c \<longrightarrow>
                at (flags (winCheck now g1)) r c
                  = ((r, c) \<in> set (hiddenNeighbours g row col) \<or> at (flags g) r c))
             \<and> moves (winCheck now g1) = moves g + 1 \<and> mask (winCheck now g1) = mask g"
      by (simp only: winCheck_fields) blast
    then show ?thesis
      by (intro exI [of _ "winCheck now g1"]) (simp only: h True if_True simp_thms)
  next
    case False
    note mh = mineHit_result [OF wfm, where now = now]
    note ra = revealAll_keeps [OF assms(1) refl refl, where row = row and col = col]
    from False c1 consider "g1 = mineHit now g" | "g1 = g"
      | "g1 = (revealAll ?ps g)\<lparr>moves := moves (revealAll ?ps g) + 1\<rparr>"
      by (auto simp: cm ce split: if_splits)
    then have "flags g1 = flags g"
      using mh(5) ra(3) by cases simp_all
    then have "flags (winCheck now g1) = flags g" by (simp only: winCheck_fields)
    then show ?thesis
      by (intro exI [of _ "winCheck now g1"]) (simp only: h False if_False simp_thms)
  qed
qed

lemma revealed_zero_move:
  assumes "gameInv g" "\<not> gameOver g" "isValidPosition row col" "at (mask g) row col"
    "at (board g) row col = 0"
  shows "handleCell now g row col = Inr (Some (g\<lparr>moves := moves g + 1\<rparr>))"
proof -
  from assms(1,2) have wf: "wf_game g" and nw: "\<not> winning g" and fh: "flagsHidden g"
    by (simp_all add: gameInv_def)
  from fh assms(3,4) have nf: "\<not> at (flags g) row col" by (auto simp: flagsHidden_iff)
  let ?g1 = "g\<lparr>moves := moves g + 1\<rparr>"
  have "cellMove now g row col = Inr ?g1"
    using assms(3,4,5) nf by (simp add: cellMove_click [OF wf] revealEmpty_revealed)
  moreover have "\<not> winning ?g1" using nw by (simp add: winning_cong [of ?g1 g])
  then have "winCheck now ?g1 = ?g1" by (simp add: winCheck_eq)
  ultimately show ?thesis using assms(2) by (simp add: handleCell_def)
qed

section \<open>The example session\<close>

lemma reachable_game1: "reachable game1"
proof -
  have "play game0 [(110, 7, 3)] = Some game1" by code_simp
  with reachable_game0 show ?thesis by (rule reachable_play)
qed

lemma reachable_game2: "reachable game2"
proof -
  have "play game1 [(120, 4, 2)] = Some game2" by code_simp
  with reachable_game1 show ?thesis by (rule reachable_play)
qed

lemma reachable_game9: "reachable game9"
proof -
  have "play game0 session9 = Some game9" by code_simp
  with reachable_game0 show ?thesis by (rule reachable_play)
qed

lemma gameInv_gameB: "gameInv gameB"
  by code_simp

section \<open>Mask monotonicity of each operation\<close>

lemma autoFlag_mask: "autoFlag g row col = Inr (fl, g1) \<Longrightarrow> mask g1 = mask g"
  by (auto simp: autoFlag_def split: sum.splits if_splits prod.splits)

lemma chord_maskLe:
  assumes "wf_game g" "chord now g row col v = Inr g1"
  shows "maskLe (mask g) (mask g1)"
proof -
  have wfm: "wf_grid (mask g)" using assms(1) by (simp add: wf_game_def)
  obtain fc us where sc: "scanChord g row col = (fc, us)" by (cases "scanChord g row col")
  then have us: "us = snd (scanChord g row col)" by simp
  note ra = revealAll_keeps(4,8) [OF assms(1) us refl]
  note mh = mineHit_result(2) [OF wfm, where now = now]
  show ?thesis
  proof (cases "fc = v")
    case True
    with assms(2) sc consider "g1 = mineHit now g" | "g1 = revealAll us g"
      | "g1 = (revealAll us g)\<lparr>moves := moves (revealAll us g) + 1\<rparr>"
      by (auto simp: chord_def Let_def split: if_splits)
    then show ?thesis using mh ra(1) by cases simp_all
  next
    case False
    with assms(2) sc obtain fl g2 where af: "autoFlag g row col = Inr (fl, g2)"
      and g1: "g1 = g2 \<or> g1 = g2\<lparr>moves := moves g2 + 1\<rparr>"
      by (auto simp: chord_def split: sum.splits if_splits)
    from autoFlag_mask [OF af] g1 show ?thesis by (auto simp: maskLe_refl)
  qed
qed

section \<open>Persistence: the round trip\<close>

lemma allSome_map_Some: "allSome (map Some xs) = Some xs"
  by (induction xs) auto

lemma arrOf_nums: "arrOf numOf (JArr (map JNum r)) = Some r"
  using allSome_map_Some [of r] by (simp add: comp_def)

lemma arrOf_bools: "arrOf boolOf (JArr (map JBool r)) = Some r"
  using allSome_map_Some [of r] by (simp add: comp_def)

lemma gridOf_nums: "gridOf numOf (JArr (map (\<lambda>r. JArr (map JNum r)) b)) = Some b"
proof -
  have "(\<lambda>r. arrOf numOf (JArr (map JNum r))) = Some"
    by (rule ext) (rule arrOf_nums)
  then have "map (arrOf numOf) (map (\<lambda>r. JArr (map JNum r)) b) = map Some b"
    by (simp only: map_map comp_def)
  then show ?thesis by (simp only: gridOf_def arrOf.simps allSome_map_Some)
qed

lemma gridOf_bools: "gridOf boolOf (JArr (map (\<lambda>r. JArr (map JBool r)) m)) = Some m"
proof -
  have "(\<lambda>r. arrOf boolOf (JArr (map JBool r))) = Some"
    by (rule ext) (rule arrOf_bools)
  then have "map (arrOf boolOf) (map (\<lambda>r. JArr (map JBool r)) m) = map Some m"
    by (simp only: map_map comp_def)
  then show ?thesis by (simp only: gridOf_def arrOf.simps allSome_map_Some)
qed

lemma parse_stringify: "parseGame (stringifyGame g) = Some g"
  by (cases "endTime g") (simp_all add: stringifyGame_def gridOf_nums gridOf_bools)


section \<open>Clicks outside the grid\<close>

lemma click_out_of_range:
  assumes "gameInv g" "\<not> gameOver g"
  shows "\<not> (0 \<le> row \<and> row < ROWS) \<Longrightarrow> handleCell now g row col = Inl TypeError"
    and "0 \<le> row \<Longrightarrow> row < ROWS \<Longrightarrow> \<not> (0 \<le> col \<and> col < COLS) \<Longrightarrow>
         handleCell now g row col = Inr (Some (g\<lparr>moves := moves g + 1\<rparr>))"
proof -
  from assms have wf: "wf_game g" and nw: "\<not> winning g" by (simp_all add: gameInv_def)
  show "\<not> (0 \<le> row \<and> row < ROWS) \<Longrightarrow> handleCell now g row col = Inl TypeError"
    using assms(2) by (simp add: handleCell_def cellMove_row_out [OF wf])
  let ?g1 = "g\<lparr>moves := moves g + 1\<rparr>"
  have "\<not> winning ?g1" using nw by (simp add: winning_cong [of ?g1 g])
  then have "winCheck now ?g1 = ?g1" by (simp add: winCheck_eq)
  then show "0 \<le> row \<Longrightarrow> row < ROWS \<Longrightarrow> \<not> (0 \<le> col \<and> col < COLS) \<Longrightarrow>
         handleCell now g row col = Inr (Some ?g1)"
    using assms(2) by (simp add: handleCell_def cellMove_col_out [OF wf])
qed

section \<open>Board generation returns\<close>

text \<open>
  The loop of \<^verbatim>\<open>createNewGame\<close> ends as soon as the draws have named \<open>MINES\<close>
  different cells.
\<close>

lemma card_insert_Diff: "finite A \<Longrightarrow> card (insert x A) = Suc (card (A - {x}))"
proof -
  assume "finite A"
  then have "card (insert x (A - {x})) = Suc (card (A - {x}))"
    by (intro card_insert_disjoint) auto
  then show ?thesis by simp
qed

lemma placeMines_returns:
  "wf_grid b \<Longrightarrow> drawsOk rnd \<Longrightarrow>
   MINES - n \<le> int (card (set rnd - {(r, c). at b r c = -1})) \<Longrightarrow>
   \<exists>b'. placeMines rnd n b = Some b'"
proof (induction rnd n b rule: placeMines.induct)
  case (1 minesPlaced b)
  then show ?case by simp
next
  case (2 row col rnd minesPlaced b)
  from "2.prems"(2) have v: "isValidPosition row col" and ok: "drawsOk rnd"
    and vs: "\<And>r c. (r, c) \<in> set rnd \<Longrightarrow> isValidPosition r c"
    by (auto simp: drawsOk_def list_all_iff)
  show ?case
  proof (cases "minesPlaced < MINES")
    case False
    then show ?thesis by simp
  next
    case True
    let ?M = "{(r, c). at b r c = -1}"
    show ?thesis
    proof (cases "at b row col \<noteq> -1")
      case free: True
      let ?b1 = "setAt b row col (-1)"
      have eq: "set rnd - {(r, c). at ?b1 r c = -1} = (set rnd - ?M) - {(row, col)}"
        using vs "2.prems"(1) v by (auto simp: at_setAt split: if_splits)
      have "set ((row, col) # rnd) - ?M = insert (row, col) (set rnd - ?M)"
        using free by auto
      then have "card (set ((row, col) # rnd) - ?M) \<le> Suc (card ((set rnd - ?M) - {(row, col)}))"
        by (simp only: card_insert_Diff [OF finite_Diff [OF finite_set]] order_refl)
      with "2.prems"(3) have "MINES - (minesPlaced + 1)
          \<le> int (card (set rnd - {(r, c). at ?b1 r c = -1}))"
        by (simp add: eq)
      with "2.IH"(1) [OF True free wf_grid_setAt [OF "2.prems"(1)] ok]
      show ?thesis using True free by simp
    next
      case False
      then have "set ((row, col) # rnd) - ?M = set rnd - ?M" by auto
      with "2.prems"(3) have "MINES - minesPlaced \<le> int (card (set rnd - ?M))" by simp
      with "2.IH"(2) [OF True False "2.prems"(1) ok]
      show ?thesis using True False by simp
    qed
  qed
qed

lemma createNewGame_returns:
  assumes "drawsOk rnd" "MINES \<le> int (card (set rnd))"
  shows "\<exists>g. createNewGame rnd now = Some g"
proof -
  have "set rnd - {(r, c). at (newGrid (0::int)) r c = -1} = set rnd"
    using assms(1) by (auto simp: drawsOk_def list_all_iff at_newGrid)
  with assms(2) have "MINES - 0 \<le> int (card (set rnd - {(r, c). at (newGrid (0::int)) r c = -1}))"
    by simp
  from placeMines_returns [OF wf_grid_newGrid assms(1) this]
  show ?thesis by (auto simp: createNewGame_def)
qed

section \<open>Claims of the specification\<close>

text \<open>
  Claim C1. Every board that board generation produces (\<^verbatim>\<open>createNewGame\<close>, which ends
  with \<^verbatim>\<open>calculateNumbers\<close>) has exactly \<open>MINES\<close> cells that hold \<open>-1\<close>, and every
  other cell holds the number of its neighbours in the grid, in the eight directions,
  that hold \<open>-1\<close>.
\<close>

theorem createNewGame_board:
  assumes "drawsOk rnd" and "createNewGame rnd now = Some g"
  shows "mineCount (board g) = MINES
       \<and> (\<forall>r c. isValidPosition r c \<longrightarrow> at (board g) r c \<noteq> -1 \<longrightarrow>
             at (board g) r c = neighbourMines (board g) r c)"
  using createNewGame_shape(2,3) [OF assms] by simp

text \<open>
  The example draws end the loop and give the example board, with ten mines; its cell
  \<open>(1, 1)\<close> holds \<open>3\<close>, the number of mines around it.
\<close>

theorem createNewGame_board_witness:
  "drawsOk exampleDraws \<and> createNewGame exampleDraws 100 = Some game0
   \<and> mineCount (board game0) = MINES
   \<and> isValidPosition 1 1 \<and> at (board game0) 1 1 = 3
   \<and> at (board game0) 1 1 = neighbourMines (board game0) 1 1"
proof -
  have h1: "drawsOk exampleDraws" by code_simp
  have h2: "createNewGame exampleDraws 100 = Some game0" by code_simp
  have h3: "isValidPosition 1 1 \<and> at (board game0) 1 1 = 3" by code_simp
  from createNewGame_board [OF h1 h2] h1 h2 h3 show ?thesis by simp
qed

text \<open>
  Claim C2. On every reachable game in progress, a chord click on a revealed cell with a
  value above \<open>0\<close> whose number of flagged neighbours equals that value is handled and
  stored, and: if some hidden neighbour without a flag is a mine, the stored game has
  \<open>gameOver\<close> true, \<open>won\<close> false and the mask entry of every mine true; otherwise all
  the hidden neighbours without a flag are revealed and \<open>gameOver\<close> stays false.
  Every reachable game satisfies \<open>gameInv\<close> (lemma \<open>reachable_inv\<close>); the statement
  covers every game that satisfies \<open>gameInv\<close>, whatever flags it carries.
\<close>

theorem chord_reveal:
  assumes "reachable g \<or> gameInv g" and "\<not> gameOver g"
    and "isValidPosition row col" and "at (mask g) row col" and "at (board g) row col > 0"
    and "int (length (flaggedNeighbours g row col)) = at (board g) row col"
  shows "\<exists>g'. handleCell now g row col = Inr (Some g') \<and>
     (if list_ex (\<lambda>(r, c). at (board g) r c = -1) (hiddenNeighbours g row col)
      then gameOver g' \<and> \<not> won g'
           \<and> (\<forall>r c. isValidPosition r c \<longrightarrow> at (board g') r c = -1 \<longrightarrow> at (mask g') r c)
      else (\<forall>(r, c) \<in> set (hiddenNeighbours g row col). at (mask g') r c) \<and> \<not> gameOver g')"
proof -
  from assms(1) have "gameInv g" by (auto dest: reachable_inv)
  then show ?thesis using assms(2-6) by (rule chord_move)
qed

text \<open>
  In the session, the chord on \<open>(3, 2)\<close> of \<open>game2\<close> (value \<open>2\<close>, two flags around it)
  reveals its one hidden neighbour \<open>(2, 3)\<close>. On \<open>gameB\<close>, where one of the two flags is
  wrong, the same chord hits the mine \<open>(4, 3)\<close>: the game is over, not won, and the mine
  \<open>(0, 0)\<close> at the other end of the board is shown.
\<close>

theorem chord_reveal_witness:
  "reachable game2 \<and> \<not> gameOver game2 \<and> isValidPosition 3 2 \<and> at (mask game2) 3 2
   \<and> at (board game2) 3 2 = 2 \<and> int (length (flaggedNeighbours game2 3 2)) = 2
   \<and> hiddenNeighbours game2 3 2 = [(2, 3)]
   \<and> (\<exists>g'. handleCell 130 game2 3 2 = Inr (Some g') \<and> at (mask g') 2 3 \<and> \<not> gameOver g')
   \<and> gameInv gameB \<and> \<not> gameOver gameB \<and> at (mask gameB) 3 2
   \<and> at (board gameB) 3 2 = 2 \<and> int (length (flaggedNeighbours gameB 3 2)) = 2
   \<and> hiddenNeighbours gameB 3 2 = [(4, 3)] \<and> at (board gameB) 4 3 = -1
   \<and> (\<exists>g'. handleCell 130 gameB 3 2 = Inr (Some g') \<and> gameOver g' \<and> \<not> won g'
            \<and> at (mask g') 0 0)"
proof -
  have a: "\<not> gameOver game2" "isValidPosition 3 2" "at (mask game2) 3 2"
    "at (board game2) 3 2 = 2" "int (length (flaggedNeighbours game2 3 2)) = 2"
    "hiddenNeighbours game2 3 2 = [(2, 3)]" "at (board game2) 2 3 \<noteq> -1"
    by code_simp+
  have b: "\<not> gameOver gameB" "at (mask gameB) 3 2"
    "at (board gameB) 3 2 = 2" "int (length (flaggedNeighbours gameB 3 2)) = 2"
    "hiddenNeighbours gameB 3 2 = [(4, 3)]" "at (board gameB) 4 3 = -1"
    "isValidPosition 0 0" "at (board gameB) 0 0 = -1"
    by code_simp+
  have "\<exists>g'. handleCell 130 game2 3 2 = Inr (Some g') \<and> at (mask g') 2 3 \<and> \<not> gameOver g'"
    using chord_reveal [of game2 3 2 130] reachable_game2 a by simp
  moreover
  obtain g' where g': "handleCell 130 gameB 3 2 = Inr (Some g')" "gameOver g'" "\<not> won g'"
    "\<forall>r c. isValidPosition r c \<longrightarrow> at (board g') r c = -1 \<longrightarrow> at (mask g') r c"
    using chord_reveal [of gameB 3 2 130] gameInv_gameB a(2) b by auto
  have "board g' = board gameB"
    using g'(1) by (simp add: handleCell_Some) (metis cellMove_keeps(2) gameInv_gameB gameInv_def winCheck_fields(1))
  with g'(4) b(7,8) have "at (mask g') 0 0" by simp
  with g' have "\<exists>g'. handleCell 130 gameB 3 2 = Inr (Some g') \<and> gameOver g' \<and> \<not> won g'
      \<and> at (mask g') 0 0"
    by blast
  ultimately show ?thesis
    using reachable_game2 gameInv_gameB a b by simp
qed

text \<open>
  Claim C3. A chord click on a revealed cell with a value above \<open>0\<close> is handled and
  stored. When the number of flagged neighbours differs from the value, and the hidden
  neighbours without a flag are at least one and exactly as many as the value less the
  flagged neighbours, then each of them is flagged, every other flag and every mask entry
  is as before, and \<open>moves\<close> is one more. When the number of flagged neighbours equals
  the value, the direct-reveal branch runs and no flag changes: the auto-flag branch runs
  only when the flag-count condition of the direct-reveal branch does not hold.
\<close>

theorem chord_autoflag:
  assumes "wf_game g" and "\<not> gameOver g"
    and "isValidPosition row col" and "at (mask g) row col" and "at (board g) row col > 0"
  shows "\<exists>g'. handleCell now g row col = Inr (Some g') \<and>
     (if int (length (flaggedNeighbours g row col)) \<noteq> at (board g) row col
      then
        (hiddenNeighbours g row col \<noteq> []
         \<and> int (length (hiddenNeighbours g row col))
             = at (board g) row col - int (length (flaggedNeighbours g row col))
         \<longrightarrow> (\<forall>r c. isValidPosition r c \<longrightarrow>
                at (flags g') r c = ((r, c) \<in> set (hiddenNeighbours g row col) \<or> at (flags g) r c))
             \<and> moves g' = moves g + 1 \<and> mask g' = mask g)
      else flags g' = flags g)"
  using assms by (rule autoflag_move)

text \<open>
  In the session, the chord on \<open>(4, 2)\<close> of \<open>game1\<close> (value \<open>2\<close>, no flag around it,
  two hidden neighbours) flags both and gives \<open>game2\<close>.
\<close>

theorem chord_autoflag_witness:
  "wf_game game1 \<and> \<not> gameOver game1 \<and> isValidPosition 4 2 \<and> at (mask game1) 4 2
   \<and> at (board game1) 4 2 = 2 \<and> flaggedNeighbours game1 4 2 = []
   \<and> hiddenNeighbours game1 4 2 = [(3, 3), (4, 3)]
   \<and> handleCell 120 game1 4 2 = Inr (Some game2)
   \<and> at (flags game2) 3 3 \<and> at (flags game2) 4 3 \<and> \<not> at (flags game2) 2 3
   \<and> moves game2 = moves game1 + 1 \<and> mask game2 = mask game1"
proof -
  have a: "wf_game game1" "\<not> gameOver game1" "isValidPosition 4 2" "at (mask game1) 4 2"
    "at (board game1) 4 2 = 2" "flaggedNeighbours game1 4 2 = []"
    "hiddenNeighbours game1 4 2 = [(3, 3), (4, 3)]"
    "handleCell 120 game1 4 2 = Inr (Some game2)"
    "isValidPosition 3 3" "isValidPosition 4 3" "isValidPosition 2 3"
    "\<not> at (flags game1) 2 3"
    by code_simp+
  from chord_autoflag [of game1 4 2 120] a
  have "(\<forall>r c. isValidPosition r c \<longrightarrow>
            at (flags game2) r c = ((r, c) \<in> set [(3, 3), (4, 3)] \<or> at (flags game1) r c))
        \<and> moves game2 = moves game1 + 1 \<and> mask game2 = mask game1"
    by simp
  with a show ?thesis by simp
qed

text \<open>
  Claim C4. After a cell action that did not itself end the game, if the flagged cells
  that are mines number \<open>MINES\<close> and the flagged cells number \<open>MINES\<close>, the game that
  is stored has \<open>won\<close> and \<open>gameOver\<close> true and \<open>endTime\<close> set; the mask is the one
  the move left, however many cells that are not mines it leaves hidden.
\<close>

theorem win_by_flags:
  assumes "\<not> gameOver g" and "cellMove now g row col = Inr g1" and "\<not> gameOver g1"
    and "correctlyFlagged g1 = MINES" and "totalFlagged g1 = MINES"
  shows "\<exists>g'. handleCell now g row col = Inr (Some g') \<and> won g' \<and> gameOver g'
           \<and> endTime g' = Some now \<and> mask g' = mask g1"
  using assms by (simp add: handleCell_def winCheck_eq winning_def)

text \<open>
  In the session, the chord on \<open>(7, 1)\<close> of \<open>game9\<close> flags the tenth mine \<open>(7, 0)\<close>;
  the game is won at that move, with the safe cells \<open>(4, 4)\<close> and \<open>(5, 7)\<close> hidden.
\<close>

theorem win_by_flags_witness:
  "reachable game9 \<and> \<not> gameOver game9
   \<and> cellMove 210 game9 7 1 = Inr (game9\<lparr>flags := setAt flags9 7 0 True, moves := 11\<rparr>)
   \<and> \<not> gameOver (game9\<lparr>flags := setAt flags9 7 0 True, moves := 11\<rparr>)
   \<and> correctlyFlagged (game9\<lparr>flags := setAt flags9 7 0 True, moves := 11\<rparr>) = MINES
   \<and> totalFlagged (game9\<lparr>flags := setAt flags9 7 0 True, moves := 11\<rparr>) = MINES
   \<and> (\<exists>g'. handleCell 210 game9 7 1 = Inr (Some g') \<and> won g' \<and> gameOver g'
           \<and> endTime g' = Some 210 \<and> mask g' = mask9)
   \<and> \<not> at mask9 4 4 \<and> at (board game9) 4 4 \<noteq> -1
   \<and> \<not> at mask9 5 7 \<and> at (board game9) 5 7 \<noteq> -1"
proof -
  let ?g1 = "game9\<lparr>flags := setAt flags9 7 0 True, moves := 11\<rparr>"
  have a: "\<not> gameOver game9" "cellMove 210 game9 7 1 = Inr ?g1" "\<not> gameOver ?g1"
    "correctlyFlagged ?g1 = MINES" "totalFlagged ?g1 = MINES" "mask ?g1 = mask9"
    "\<not> at mask9 4 4" "at (board game9) 4 4 \<noteq> -1"
    "\<not> at mask9 5 7" "at (board game9) 5 7 \<noteq> -1"
    by code_simp+
  from win_by_flags [OF a(1-5)] a reachable_game9 show ?thesis by simp
qed

text \<open>
  Claim C5. Decoding the encoding of a game (\<^verbatim>\<open>JSON.parse\<close> of
  \<^verbatim>\<open>JSON.stringify\<close>) gives the game back, field for field: the three grids,
  \<open>gameOver\<close>, \<open>won\<close>, \<open>startTime\<close>, \<open>moves\<close>, and \<open>endTime\<close>, absent or
  present. It holds of every game, reachable or not.
\<close>

theorem json_round_trip: "parseGame (stringifyGame g) = Some g"
  by (rule parse_stringify)

text \<open>
  In the session: \<open>game9\<close>, in progress and without an end time, and the game its next
  move wins, with the end time \<open>210\<close>.
\<close>

theorem json_round_trip_witness:
  "endTime game9 = None \<and> parseGame (stringifyGame game9) = Some game9
   \<and> parseGame (stringifyGame (game9\<lparr>gameOver := True, won := True, endTime := Some 210\<rparr>))
       = Some (game9\<lparr>gameOver := True, won := True, endTime := Some 210\<rparr>)"
proof -
  have "endTime game9 = None" by code_simp
  then show ?thesis
    using json_round_trip [of game9]
      json_round_trip [of "game9\<lparr>gameOver := True, won := True, endTime := Some 210\<rparr>"]
    by simp
qed

text \<open>
  Claim C6 says that a cell action with a row or a column outside the grid is a silent
  no-op that stores the game unchanged, \<open>moves\<close> included. The handler does not check the
  clicked coordinates. With chat \<open>7\<close> holding \<open>game1\<close>, whose \<open>moves\<close> is \<open>1\<close>, the
  action on row \<open>0\<close> and column \<open>8\<close> stores the game with \<open>moves = 2\<close>, and the
  action on row \<open>8\<close> and column \<open>0\<close> throws a \<^verbatim>\<open>TypeError\<close>.
\<close>

theorem out_of_range_click_counts_a_move:
  "moves game1 = 1
   \<and> handleCell 120 game1 0 8 = Inr (Some (game1\<lparr>moves := 2\<rparr>))
   \<and> handleCallback 120 (Map.empty(7 \<mapsto> stringifyGame game1)) 7 0 8
       = Inr (Map.empty(7 \<mapsto> stringifyGame (game1\<lparr>moves := 2\<rparr>)))
   \<and> handleCell 120 game1 8 0 = Inl TypeError
   \<and> handleCallback 120 (Map.empty(7 \<mapsto> stringifyGame game1)) 7 8 0 = Inl TypeError"
proof -
  have a: "moves game1 = 1" "handleCell 120 game1 0 8 = Inr (Some (game1\<lparr>moves := 2\<rparr>))"
    "handleCell 120 game1 8 0 = Inl TypeError" "\<not> gameOver (game1\<lparr>moves := 2\<rparr>)"
    by code_simp+
  show ?thesis
    using a by (simp add: handleCallback_def parse_stringify)
qed

text \<open>
  Claim C7. For every game, every starting coordinate and every budget \<open>b\<close>, one call of
  \<^verbatim>\<open>revealEmpty\<close> changes at most \<open>max b 0\<close> mask entries from false to true, and the
  value it returns is \<open>b\<close> minus the number of cells it revealed.
\<close>

theorem revealEmpty_budget:
  assumes "wf_grid (mask g)" and "revealEmpty g row col b = (g', b')"
  shows "newlyRevealed (mask g) (mask g') \<le> max b 0
       \<and> b' = b - newlyRevealed (mask g) (mask g')"
  using revealEmpty_result(4,6,7) [OF assms] revealEmpty_result(5) [OF assms]
  by auto

text \<open>
  On the example game a reveal from the empty cell \<open>(7, 3)\<close> with budget \<open>5\<close> stops
  after five cells and returns \<open>0\<close>.
\<close>

theorem revealEmpty_budget_witness:
  "wf_grid (mask game0)
   \<and> snd (revealEmpty game0 7 3 5) = 0
   \<and> newlyRevealed (mask game0) (mask (fst (revealEmpty game0 7 3 5))) \<le> max 5 0
   \<and> snd (revealEmpty game0 7 3 5)
       = 5 - newlyRevealed (mask game0) (mask (fst (revealEmpty game0 7 3 5)))"
proof -
  have wf: "wf_grid (mask game0)" by code_simp
  have r: "snd (revealEmpty game0 7 3 5) = 0" by code_simp
  from revealEmpty_budget [OF wf surjective_pairing, of 7 3 5] wf r
  show ?thesis by simp
qed

text \<open>
  Claim C8. On a board that satisfies the generation invariant (each cell that is not a
  mine holds the number of mines around it), a call of \<^verbatim>\<open>revealEmpty\<close> that starts at a
  cell whose value is not \<open>-1\<close> leaves the mask entry of every mine as it was: it never
  reveals a mine.
\<close>

theorem revealEmpty_spares_mines:
  assumes "wf_grid (mask g)" and "boardInvariant (board g)"
    and "isValidPosition row col \<longrightarrow> at (board g) row col \<noteq> -1"
    and "isValidPosition r c" and "at (board g) r c = -1"
  shows "at (mask (fst (revealEmpty g row col b))) r c = at (mask g) r c"
  using assms by (rule reveal_safe(1))

text \<open>
  On the example game the reveal from \<open>(7, 3)\<close> with the full budget opens 28 cells and
  leaves the mine at \<open>(3, 3)\<close>, which borders the opened region, hidden.
\<close>

theorem revealEmpty_spares_mines_witness:
  "wf_grid (mask game0) \<and> boardInvariant (board game0)
   \<and> isValidPosition 7 3 \<and> at (board game0) 7 3 \<noteq> -1
   \<and> isValidPosition 3 3 \<and> at (board game0) 3 3 = -1
   \<and> snd (revealEmpty game0 7 3 MAX_REVEALS) = 22
   \<and> at (mask (fst (revealEmpty game0 7 3 MAX_REVEALS))) 3 3 = at (mask game0) 3 3"
proof -
  have h1: "wf_grid (mask game0)" by code_simp
  have h2: "boardInvariant (board game0)" by code_simp
  have h3: "isValidPosition 7 3 \<and> at (board game0) 7 3 \<noteq> -1" by code_simp
  then have h3': "isValidPosition 7 3 \<longrightarrow> at (board game0) 7 3 \<noteq> -1" by simp
  have h4: "isValidPosition 3 3" by code_simp
  have h5: "at (board game0) 3 3 = -1" by code_simp
  have h6: "snd (revealEmpty game0 7 3 MAX_REVEALS) = 22" by code_simp
  from revealEmpty_spares_mines [OF h1 h2 h3' h4 h5, of MAX_REVEALS] h1 h2 h3 h4 h5 h6
  show ?thesis by simp
qed

text \<open>
  Claim C9. Mask monotonicity: each operation on a game, \<^verbatim>\<open>revealEmpty\<close>,
  \<^verbatim>\<open>autoFlag\<close>, the loss transition, the chord branch, the dispatch of the handler
  with its direct click and its chord, the win check, and the handler as a whole, leaves
  every mask entry that is true true: a revealed cell is never hidden again.
\<close>

theorem mask_monotone:
  assumes "wf_game g"
  shows "maskLe (mask g) (mask (fst (revealEmpty g row col b)))
       \<and> (\<forall>fl g1. autoFlag g row col = Inr (fl, g1) \<longrightarrow> maskLe (mask g) (mask g1))
       \<and> maskLe (mask g) (mask (mineHit now g))
       \<and> (\<forall>v g1. chord now g row col v = Inr g1 \<longrightarrow> maskLe (mask g) (mask g1))
       \<and> (\<forall>g1. cellMove now g row col = Inr g1 \<longrightarrow> maskLe (mask g) (mask g1))
       \<and> maskLe (mask g) (mask (winCheck now g))
       \<and> (\<forall>g'. handleCell now g row col = Inr (Some g') \<longrightarrow> maskLe (mask g) (mask g'))"
proof (intro conjI allI impI)
  have wfm: "wf_grid (mask g)" using assms by (simp add: wf_game_def)
  show "maskLe (mask g) (mask (fst (revealEmpty g row col b)))"
    using revealEmpty_result(3) [OF wfm surjective_pairing] .
  show "maskLe (mask g) (mask (mineHit now g))"
    by (rule mineHit_result(2) [OF wfm])
  show "maskLe (mask g) (mask (winCheck now g))"
    by (simp add: winCheck_fields maskLe_refl)
next
  fix fl g1 assume "autoFlag g row col = Inr (fl, g1)"
  then show "maskLe (mask g) (mask g1)" by (simp add: autoFlag_mask maskLe_refl)
next
  fix v g1 assume "chord now g row col v = Inr g1"
  with assms show "maskLe (mask g) (mask g1)" by (rule chord_maskLe)
next
  fix g1 assume "cellMove now g row col = Inr g1"
  with assms show "maskLe (mask g) (mask g1)" by (rule cellMove_keeps(3))
next
  fix g' assume "handleCell now g row col = Inr (Some g')"
  then obtain g1 where "cellMove now g row col = Inr g1" "g' = winCheck now g1"
    by (auto simp: handleCell_Some)
  then show "maskLe (mask g) (mask g')"
    using cellMove_keeps(3) [OF assms] by (simp add: winCheck_fields)
qed

text \<open>
  In the session: the chord on \<open>(4, 2)\<close> of \<open>game1\<close>, which gives \<open>game2\<close>, keeps
  the 28 cells of \<open>game1\<close> revealed, and so do a reveal from \<open>(0, 4)\<close>, the loss
  transition and the win check on \<open>game1\<close>.
\<close>

theorem mask_monotone_witness:
  "wf_game game1 \<and> handleCell 120 game1 4 2 = Inr (Some game2)
   \<and> revealedCount (mask game1) = 28
   \<and> maskLe (mask game1) (mask game2)
   \<and> maskLe (mask game1) (mask (fst (revealEmpty game1 0 4 MAX_REVEALS)))
   \<and> maskLe (mask game1) (mask (mineHit 120 game1))
   \<and> maskLe (mask game1) (mask (winCheck 120 game1))"
proof -
  have a: "wf_game game1" "handleCell 120 game1 4 2 = Inr (Some game2)"
    "revealedCount (mask game1) = 28"
    by code_simp+
  from mask_monotone [OF a(1), of 4 2 MAX_REVEALS 120] a(2)
  have "maskLe (mask game1) (mask game2)" by simp
  moreover from mask_monotone [OF a(1), of 0 4 MAX_REVEALS 120]
  have "maskLe (mask game1) (mask (fst (revealEmpty game1 0 4 MAX_REVEALS)))
      \<and> maskLe (mask game1) (mask (mineHit 120 game1))
      \<and> maskLe (mask game1) (mask (winCheck 120 game1))"
    by simp
  ultimately show ?thesis using a by simp
qed

text \<open>
  Claim C10. On every reachable game in progress, a cell action on a cell that is
  revealed and has the value \<open>0\<close> is handled and stores the game with \<open>moves\<close> one more
  and the board, every mask entry, every flag, \<open>gameOver\<close>, \<open>won\<close>, \<open>startTime\<close> and
  \<open>endTime\<close> as they were.
\<close>

theorem click_revealed_zero:
  assumes "reachable g" and "\<not> gameOver g"
    and "isValidPosition row col" and "at (mask g) row col" and "at (board g) row col = 0"
  shows "handleCell now g row col = Inr (Some (g\<lparr>moves := moves g + 1\<rparr>))"
  using reachable_inv [OF assms(1)] assms(2-5) by (rule revealed_zero_move)

text \<open>In the session: a second click on the cell \<open>(7, 3)\<close>, which the first has revealed.\<close>

theorem click_revealed_zero_witness:
  "reachable game1 \<and> \<not> gameOver game1 \<and> isValidPosition 7 3 \<and> at (mask game1) 7 3
   \<and> at (board game1) 7 3 = 0
   \<and> handleCell 120 game1 7 3 = Inr (Some (game1\<lparr>moves := 2\<rparr>))"
proof -
  have a: "\<not> gameOver game1" "isValidPosition 7 3" "at (mask game1) 7 3"
    "at (board game1) 7 3 = 0" "moves game1 + 1 = 2"
    by code_simp+
  from click_revealed_zero [OF reachable_game1 a(1-4), of 120] a reachable_game1
  show ?thesis by simp
qed

end
